theory Spec2Isabelle
  imports Main "HOL-Library.Word" "HOL-Library.AList"
begin

unbundle bit_operations_syntax

section \<open>Machine integers and panics\<close>

type_synonym u8 = "8 word"
type_synonym u16 = "16 word"
type_synonym u32 = "32 word"
type_synonym u64 = "64 word"

text \<open>
  Go's run-time panics that the modelled code can raise, and the error values of the
  store driver. A function that can panic returns \<open>panic + 'a\<close>, \<open>Inl\<close> the panic.
\<close>

datatype panic = IndexOutOfRange | DivideByZero | StoreError string

text \<open>Go's \<open>/\<close> on signed integers truncates towards zero.\<close>

definition go_quot :: "int \<Rightarrow> int \<Rightarrow> int" where
  "go_quot a b = sgn a * sgn b * (\<bar>a\<bar> div \<bar>b\<bar>)"

section \<open>Count-Min Sketch\<close>

record CountMinSketch =
  width :: u32
  depth :: u32
  counters :: "u32 list list"
  seeds :: "u64 list"

text \<open>
  \<open>NewCountMinSketch\<close>. The two arguments are Go \<open>int\<close>s (64 bits); \<open>depth * 4\<close> is at most
  32 after the clamp and the quotient is no larger in magnitude than \<open>memoryBytes\<close>, so
  neither overflows. The conversion \<open>uint32(...)\<close> keeps the low 32 bits. Running out of
  memory in \<open>make\<close> is not modelled.
\<close>

definition NewCountMinSketch :: "int \<Rightarrow> int \<Rightarrow> CountMinSketch" where
  "NewCountMinSketch memoryBytes depth0 =
     (let depth1 = (if depth0 < 2 then 2 else depth0);
          depth2 = (if depth1 > 8 then 8 else depth1);
          width0 = (word_of_int (go_quot memoryBytes (depth2 * 4)) :: u32);
          width1 = (if width0 < 256 then 256 else width0)
      in \<lparr> width = width1,
           depth = word_of_int depth2,
           counters = replicate (nat depth2) (replicate (unat width1) 0),
           seeds = map (\<lambda>i. word_of_nat i * 0x9E3779B97F4A7C15 + 0x517CC1B727220A95)
                       [0..<nat depth2] \<rparr>)"

text \<open>
  \<open>hash\<close>. The 64-bit hash function of the external xxhash library is a parameter
  \<open>Sum64\<close>, applied to the eight little-endian bytes of the seed followed by the bytes of
  the key. The remainder by a zero width panics in Go.
\<close>

definition seedBytes :: "u64 \<Rightarrow> u8 list" where
  "seedBytes seed = map (\<lambda>k. ucast (drop_bit (8 * k) seed)) [0..<8]"

definition hash :: "(u8 list \<Rightarrow> u64) \<Rightarrow> CountMinSketch \<Rightarrow> string \<Rightarrow> u64 \<Rightarrow> panic + u32" where
  "hash Sum64 cms key seed =
     (if width cms = 0 then Inl DivideByZero
      else Inr (ucast (Sum64 (seedBytes seed @ map of_char key) mod ucast (width cms))))"

text \<open>The saturating addition of \<open>Increment\<close>: the wrapped sum, capped when it wrapped.\<close>

definition capped_add :: "u32 \<Rightarrow> u32 \<Rightarrow> u32" where
  "capped_add old delta =
     (let newVal = old + delta in if newVal < old then 0xFFFFFFFF else newVal)"

text \<open>
  The loop of \<open>Increment\<close> over the rows \<open>i = 0, ..., depth - 1\<close>, carrying the sketch and
  \<open>minCount\<close>. An index outside \<open>seeds\<close>, \<open>counters\<close> or a row panics.
\<close>

fun Increment_loop ::
  "(u8 list \<Rightarrow> u64) \<Rightarrow> string \<Rightarrow> u32 \<Rightarrow> nat list \<Rightarrow> CountMinSketch \<times> u32
     \<Rightarrow> panic + (CountMinSketch \<times> u32)" where
  "Increment_loop Sum64 key delta [] st = Inr st"
| "Increment_loop Sum64 key delta (i # rest) (cms, minCount) =
     (if length (seeds cms) \<le> i then Inl IndexOutOfRange
      else case hash Sum64 cms key (seeds cms ! i) of
        Inl e \<Rightarrow> Inl e
      | Inr idx \<Rightarrow>
          if length (counters cms) \<le> i \<or> length (counters cms ! i) \<le> unat idx
          then Inl IndexOutOfRange
          else
            let newVal = capped_add (counters cms ! i ! unat idx) delta;
                cms' = cms\<lparr>counters := (counters cms)[i := (counters cms ! i)[unat idx := newVal]]\<rparr>;
                minCount' = (if newVal < minCount then newVal else minCount)
            in Increment_loop Sum64 key delta rest (cms', minCount'))"

definition Increment ::
  "(u8 list \<Rightarrow> u64) \<Rightarrow> CountMinSketch \<Rightarrow> string \<Rightarrow> u32 \<Rightarrow> panic + (CountMinSketch \<times> u32)" where
  "Increment Sum64 cms key delta =
     Increment_loop Sum64 key delta [0..<unat (depth cms)] (cms, 0xFFFFFFFF)"

fun Estimate_loop ::
  "(u8 list \<Rightarrow> u64) \<Rightarrow> CountMinSketch \<Rightarrow> string \<Rightarrow> nat list \<Rightarrow> u32 \<Rightarrow> panic + u32" where
  "Estimate_loop Sum64 cms key [] minCount = Inr minCount"
| "Estimate_loop Sum64 cms key (i # rest) minCount =
     (if length (seeds cms) \<le> i then Inl IndexOutOfRange
      else case hash Sum64 cms key (seeds cms ! i) of
        Inl e \<Rightarrow> Inl e
      | Inr idx \<Rightarrow>
          if length (counters cms) \<le> i \<or> length (counters cms ! i) \<le> unat idx
          then Inl IndexOutOfRange
          else
            let count = counters cms ! i ! unat idx
            in Estimate_loop Sum64 cms key rest (if count < minCount then count else minCount))"

definition Estimate :: "(u8 list \<Rightarrow> u64) \<Rightarrow> CountMinSketch \<Rightarrow> string \<Rightarrow> panic + u32" where
  "Estimate Sum64 cms key = Estimate_loop Sum64 cms key [0..<unat (depth cms)] 0xFFFFFFFF"

text \<open>
  The invariant of a constructed sketch: a non-zero width and depth, one seed and one row of
  counters per level of depth, every row as long as the width. Under it no index leaves
  its array and the remainder in \<open>hash\<close> is defined.
\<close>

definition cms_wf :: "CountMinSketch \<Rightarrow> bool" where
  "cms_wf cms \<longleftrightarrow>
     width cms \<noteq> 0 \<and> depth cms \<noteq> 0
     \<and> length (seeds cms) = unat (depth cms)
     \<and> length (counters cms) = unat (depth cms)
     \<and> list_all (\<lambda>row. length row = unat (width cms)) (counters cms)"

text \<open>The column that \<open>hash\<close> selects for a key in row \<open>i\<close>.\<close>

definition cell :: "(u8 list \<Rightarrow> u64) \<Rightarrow> CountMinSketch \<Rightarrow> string \<Rightarrow> nat \<Rightarrow> nat" where
  "cell Sum64 cms key i =
     (case hash Sum64 cms key (seeds cms ! i) of Inr idx \<Rightarrow> unat idx | Inl e \<Rightarrow> 0)"

text \<open>Row \<open>i\<close> after one \<open>Increment\<close> of the key.\<close>

definition bumped_row :: "(u8 list \<Rightarrow> u64) \<Rightarrow> CountMinSketch \<Rightarrow> string \<Rightarrow> u32 \<Rightarrow> nat \<Rightarrow> u32 list" where
  "bumped_row Sum64 cms key delta i =
     (counters cms ! i)[cell Sum64 cms key i :=
        capped_add (counters cms ! i ! cell Sum64 cms key i) delta]"

text \<open>
  A sequence of \<open>Increment\<close> calls, with no \<open>Decay\<close> or \<open>Reset\<close> between them; the sum
  of the deltas given to one key, as a natural number; and the estimate read after the
  sequence. \<open>zero_hash\<close> is a hash function under which all keys collide.
\<close>

fun Increment_all ::
  "(u8 list \<Rightarrow> u64) \<Rightarrow> CountMinSketch \<Rightarrow> (string \<times> u32) list \<Rightarrow> panic + CountMinSketch" where
  "Increment_all Sum64 cms [] = Inr cms"
| "Increment_all Sum64 cms ((key, delta) # rest) =
     (case Increment Sum64 cms key delta of
        Inl e \<Rightarrow> Inl e
      | Inr (cms', r) \<Rightarrow> Increment_all Sum64 cms' rest)"

definition true_count :: "string \<Rightarrow> (string \<times> u32) list \<Rightarrow> nat" where
  "true_count k calls = sum_list (map (\<lambda>c. unat (snd c)) (filter (\<lambda>c. fst c = k) calls))"

definition Estimate_after ::
  "(u8 list \<Rightarrow> u64) \<Rightarrow> CountMinSketch \<Rightarrow> (string \<times> u32) list \<Rightarrow> string \<Rightarrow> panic + u32" where
  "Estimate_after Sum64 cms calls k =
     (case Increment_all Sum64 cms calls of Inl e \<Rightarrow> Inl e | Inr cms' \<Rightarrow> Estimate Sum64 cms' k)"

definition zero_hash :: "u8 list \<Rightarrow> u64" where
  "zero_hash bs = 0"

section \<open>The store driver as the core sees it\<close>

text \<open>
  The commands the core sends. A pipeline is the list of appended commands, each with the
  receiver its reply is written to (\<open>None\<close> for a \<open>nil\<close> receiver); \<open>'r\<close> names the
  receivers (the key of a batch entry in \<open>flush\<close>, an index into \<open>results\<close> or
  \<open>currentCount\<close> in \<open>DoLimit\<close>).
\<close>

datatype command = INCRBY string u64 | EXPIRE string int | GET string

type_synonym 'r Pipeline = "('r option \<times> command) list"

definition PipeAppend :: "'r Pipeline \<Rightarrow> 'r option \<Rightarrow> command \<Rightarrow> 'r Pipeline" where
  "PipeAppend pipeline rcv cmd = pipeline @ [(rcv, cmd)]"

text \<open>
  The driver is outside the core: \<open>PipeDo\<close> is a parameter that maps the commands of a
  pipeline to an error or to one reply per command. \<open>write_replies\<close> stores each reply in
  the receiver of its command; a receiver with no reply keeps its value.
\<close>

type_synonym PipeDo = "command list \<Rightarrow> string + u64 list"

fun write_replies :: "'r Pipeline \<Rightarrow> u64 list \<Rightarrow> ('r \<Rightarrow> u64) \<Rightarrow> ('r \<Rightarrow> u64)" where
  "write_replies [] vs mem = mem"
| "write_replies ((rcv, c) # p) [] mem = mem"
| "write_replies ((rcv, c) # p) (v # vs) mem =
     write_replies p vs (case rcv of None \<Rightarrow> mem | Some r \<Rightarrow> mem(r := v))"

section \<open>Hot-key batcher\<close>

text \<open>\<open>Err = None\<close> is Go's \<open>nil\<close> error.\<close>

record HotKeyBatcherResult =
  Value :: u64
  Err :: "string option"

text \<open>A channel is modelled by its identity, a number given out by \<open>make\<close>.\<close>

record pendingWaiter =
  hitsAddend :: u64
  resultChan :: nat

record aggregatedIncrement =
  totalHits :: u64
  expirationSeconds :: int
  waiters :: "pendingWaiter list"

text \<open>
  The batcher: the map \<open>pending\<close> as an association list with distinct keys, in the order
  in which \<open>flush\<close> ranges over it (Go leaves that order open), and the number of channels
  made so far. The client is a parameter of \<open>flush\<close>; the ticker and the stop channel
  belong to the flush goroutine and are not modelled.
\<close>

record HotKeyBatcher =
  pending :: "(string \<times> aggregatedIncrement) list"
  chansMade :: nat

definition Submit :: "HotKeyBatcher \<Rightarrow> string \<Rightarrow> u64 \<Rightarrow> int \<Rightarrow> HotKeyBatcher \<times> nat" where
  "Submit b key hits expiration =
     (let ch = chansMade b;
          waiter = \<lparr>hitsAddend = hits, resultChan = ch\<rparr>;
          agg = (case map_of (pending b) key of
                   None \<Rightarrow> \<lparr>totalHits = 0, expirationSeconds = expiration, waiters = []\<rparr>
                 | Some a \<Rightarrow> a);
          agg1 = agg\<lparr>totalHits := totalHits agg + hits\<rparr>;
          agg2 = (if expiration > expirationSeconds agg1
                  then agg1\<lparr>expirationSeconds := expiration\<rparr> else agg1);
          agg3 = agg2\<lparr>waiters := waiters agg2 @ [waiter]\<rparr>
      in (b\<lparr>pending := AList.update key agg3 (pending b), chansMade := Suc ch\<rparr>, ch))"

text \<open>The first loop of \<open>flush\<close>: two commands per pending key.\<close>

fun flush_build :: "(string \<times> aggregatedIncrement) list \<Rightarrow> string Pipeline \<Rightarrow> string Pipeline" where
  "flush_build [] pipeline = pipeline"
| "flush_build ((key, agg) # rest) pipeline =
     flush_build rest
       (PipeAppend (PipeAppend pipeline (Some key) (INCRBY key (totalHits agg)))
          None (EXPIRE key (expirationSeconds agg)))"

text \<open>
  The reverse walk: \<open>i\<close> runs from \<open>len(waiters) - 1\<close> down to 0; the first argument is
  \<open>i + 1\<close>. Subtraction on \<open>uint64\<close> wraps.
\<close>

fun reverse_walk :: "nat \<Rightarrow> pendingWaiter list \<Rightarrow> u64 \<Rightarrow> u64 list \<Rightarrow> u64 list" where
  "reverse_walk 0 ws runningCount waiterResults = waiterResults"
| "reverse_walk (Suc i) ws runningCount waiterResults =
     reverse_walk i ws (runningCount - hitsAddend (ws ! i)) (waiterResults[i := runningCount])"

definition waiter_results :: "u64 \<Rightarrow> pendingWaiter list \<Rightarrow> u64 list" where
  "waiter_results finalCount ws =
     reverse_walk (length ws) ws finalCount (replicate (length ws) 0)"

text \<open>
  The second loop of \<open>flush\<close>: what is sent on which channel, in order. Every send is
  followed by the close of its channel.
\<close>

fun flush_distribute ::
  "string option \<Rightarrow> (string \<Rightarrow> u64) \<Rightarrow> (string \<times> aggregatedIncrement) list
     \<Rightarrow> (nat \<times> HotKeyBatcherResult) list" where
  "flush_distribute err results [] = []"
| "flush_distribute err results ((key, agg) # rest) =
     (case err of
        Some e \<Rightarrow> map (\<lambda>w. (resultChan w, \<lparr>Value = 0, Err = Some e\<rparr>)) (waiters agg)
      | None \<Rightarrow>
          map (\<lambda>(w, v). (resultChan w, \<lparr>Value = v, Err = None\<rparr>))
            (zip (waiters agg) (waiter_results (results key) (waiters agg))))
     @ flush_distribute err results rest"

text \<open>
  \<open>flush\<close> returns the batcher with the swapped-in empty map, the pipelines it handed to
  \<open>PipeDo\<close> (its calls of the driver, in order) and the sends.
\<close>

record flush_outcome =
  batcher :: HotKeyBatcher
  pipeDoCalls :: "command list list"
  sent :: "(nat \<times> HotKeyBatcherResult) list"

definition flush :: "PipeDo \<Rightarrow> HotKeyBatcher \<Rightarrow> flush_outcome" where
  "flush pipeDo b =
     (if pending b = [] then \<lparr>batcher = b, pipeDoCalls = [], sent = []\<rparr>
      else
        let toFlush = pending b;
            b' = b\<lparr>pending := []\<rparr>;
            pipeline = flush_build toFlush [];
            reply = pipeDo (map snd pipeline)
        in case reply of
             Inl e \<Rightarrow>
               \<lparr>batcher = b', pipeDoCalls = [map snd pipeline],
                sent = flush_distribute (Some e) (\<lambda>k. 0) toFlush\<rparr>
           | Inr vs \<Rightarrow>
               \<lparr>batcher = b', pipeDoCalls = [map snd pipeline],
                sent = flush_distribute None (write_replies pipeline vs (\<lambda>k. 0)) toFlush\<rparr>)"

text \<open>
  A sequence of \<open>Submit\<close> calls \<open>(key, hitsAddend, ttlSeconds)\<close> with no flush between
  them; it returns the channels handed back, one per call.
\<close>

fun Submit_all :: "HotKeyBatcher \<Rightarrow> (string \<times> u64 \<times> int) list \<Rightarrow> HotKeyBatcher \<times> nat list" where
  "Submit_all b [] = (b, [])"
| "Submit_all b ((key, hits, ttl) # rest) =
     (case Submit b key hits ttl of
        (b1, ch) \<Rightarrow> (case Submit_all b1 rest of (b2, chs) \<Rightarrow> (b2, ch # chs)))"

text \<open>
  The commands of the flush pipeline as one list, and the sends of one key on success, as
  functions of the pending entries: the closed forms of \<open>flush_build\<close> and of one round
  of \<open>flush_distribute\<close>.
\<close>

definition flush_cmds :: "(string \<times> aggregatedIncrement) list \<Rightarrow> string Pipeline" where
  "flush_cmds tf = concat (map (\<lambda>(key, agg).
       [(Some key, INCRBY key (totalHits agg)), (None, EXPIRE key (expirationSeconds agg))]) tf)"

definition sends_ok :: "(string \<Rightarrow> u64) \<Rightarrow> string \<times> aggregatedIncrement \<Rightarrow> (nat \<times> HotKeyBatcherResult) list" where
  "sends_ok results ka =
     map (\<lambda>i. (resultChan (waiters (snd ka) ! i),
                \<lparr>Value = results (fst ka) - sum_list (map hitsAddend (drop (Suc i) (waiters (snd ka)))),
                 Err = None\<rparr>))
       [0..<length (waiters (snd ka))]"

text \<open>
  The entry of key \<open>k\<close> in step with the calls made so far, each paired with the channel
  it returned: no entry when no call named \<open>k\<close>; otherwise one waiter per call for \<open>k\<close>,
  in call order, with the call's \<open>hitsAddend\<close> and channel; \<open>totalHits\<close> the sum over the
  waiters (on \<open>uint64\<close>); the expiration the greatest \<open>ttlSeconds\<close> of those calls.
\<close>

definition entry_ok ::
  "(string \<times> aggregatedIncrement) list \<Rightarrow> ((string \<times> u64 \<times> int) \<times> nat) list \<Rightarrow> string \<Rightarrow> bool" where
  "entry_ok pend cs k =
     (let mine = filter (\<lambda>c. fst (fst c) = k) cs in
      case map_of pend k of
        None \<Rightarrow> mine = []
      | Some agg \<Rightarrow>
          mine \<noteq> []
          \<and> waiters agg = map (\<lambda>c. \<lparr>hitsAddend = fst (snd (fst c)), resultChan = snd c\<rparr>) mine
          \<and> totalHits agg = sum_list (map hitsAddend (waiters agg))
          \<and> expirationSeconds agg = Max (set (map (\<lambda>c. snd (snd (fst c))) mine)))"

text \<open>
  A small store to run the batcher and the engine against: counters held in a function from
  keys, \<open>INCRBY\<close> adding to a counter and replying its new value, \<open>EXPIRE\<close> replying 1,
  \<open>GET\<close> replying the counter. \<open>counter_store v\<close> is a driver whose counters all hold
  \<open>v\<close> when a pipeline starts; the pipelines of \<open>failing_store\<close> fail.
\<close>

fun store_run :: "(string \<Rightarrow> u64) \<Rightarrow> command list \<Rightarrow> u64 list" where
  "store_run st [] = []"
| "store_run st (INCRBY k n # cs) = (st k + n) # store_run (st(k := st k + n)) cs"
| "store_run st (EXPIRE k t # cs) = 1 # store_run st cs"
| "store_run st (GET k # cs) = st k # store_run st cs"

definition counter_store :: "u64 \<Rightarrow> PipeDo" where
  "counter_store v cmds = Inr (store_run (\<lambda>k. v) cmds)"

definition failing_store :: PipeDo where
  "failing_store cmds = Inl ''connection refused''"

section \<open>Hot-key detector\<close>

text \<open>
  \<open>Decay\<close> and \<open>Reset\<close> of the sketch. \<open>Decay\<close> replaces every counter \<open>c\<close> of the first
  \<open>depth\<close> rows and \<open>width\<close> columns by \<open>uint32(float64(c) * factor)\<close>; floating point is
  not modelled, and that computation is the parameter \<open>scale\<close>. The guard
  \<open>factor <= 0 || factor >= 1\<close> never holds for the factor a detector passes (its
  constructor replaces such a factor by 0.5). The two nested loops are written in closed
  form; an index outside the arrays panics.
\<close>

definition cells_in_range :: "CountMinSketch \<Rightarrow> bool" where
  "cells_in_range cms \<longleftrightarrow>
     unat (depth cms) \<le> length (counters cms)
     \<and> list_all (\<lambda>row. unat (width cms) \<le> length row) (take (unat (depth cms)) (counters cms))"

definition map_cells :: "(u32 \<Rightarrow> u32) \<Rightarrow> CountMinSketch \<Rightarrow> panic + CountMinSketch" where
  "map_cells f cms =
     (if \<not> cells_in_range cms then Inl IndexOutOfRange
      else Inr (cms\<lparr>counters :=
             map (\<lambda>row. map f (take (unat (width cms)) row) @ drop (unat (width cms)) row)
                 (take (unat (depth cms)) (counters cms))
             @ drop (unat (depth cms)) (counters cms)\<rparr>))"

definition Decay :: "(u32 \<Rightarrow> u32) \<Rightarrow> CountMinSketch \<Rightarrow> panic + CountMinSketch" where
  "Decay scale cms = map_cells scale cms"


text \<open>
  The detector. \<open>hotKeys\<close> is the set of keys of the Go map; \<open>maxHotKeys\<close> is a Go \<open>int\<close>;
  times and durations are in nanoseconds. The clock is an argument \<open>now\<close> of the
  operations that read it. \<open>decayFactor\<close> lives in the parameter \<open>scale\<close>.
\<close>

record HotKeyDetector =
  cms :: CountMinSketch
  hotThreshold :: u32
  hotKeys :: "string set"
  hotKeysList :: "string list"
  maxHotKeys :: int
  decayInterval :: int
  lastDecayTime :: int

record HotKeyDetectorConfig =
  SketchMemoryBytes :: int
  SketchDepth :: int
  HotThreshold :: u32
  MaxHotKeys :: int
  DecayInterval :: int

definition NewHotKeyDetector :: "HotKeyDetectorConfig \<Rightarrow> int \<Rightarrow> HotKeyDetector" where
  "NewHotKeyDetector config now =
     (let maxKeys = (if MaxHotKeys config \<le> 0 then 10000 else MaxHotKeys config);
          threshold = (if HotThreshold config \<le> 0 then 100 else HotThreshold config)
      in \<lparr> cms = NewCountMinSketch (SketchMemoryBytes config) (SketchDepth config),
           hotThreshold = threshold,
           hotKeys = {},
           hotKeysList = [],
           maxHotKeys = maxKeys,
           decayInterval = DecayInterval config,
           lastDecayTime = now \<rparr>)"

definition isHot :: "HotKeyDetector \<Rightarrow> string \<Rightarrow> bool" where
  "isHot d key \<longleftrightarrow> key \<in> hotKeys d"

text \<open>\<open>touchHotKey\<close>: the first occurrence of the key leaves the list, the key goes to the end.\<close>

definition touchHotKey :: "HotKeyDetector \<Rightarrow> string \<Rightarrow> HotKeyDetector" where
  "touchHotKey d key = d\<lparr>hotKeysList := remove1 key (hotKeysList d) @ [key]\<rparr>"

text \<open>
  The eviction loop of \<open>promoteToHot\<close>: while the list is at least \<open>maxHotKeys\<close> long, its
  head leaves the list and the set. Reading the head of an empty list panics.
\<close>

fun evict_loop :: "int \<Rightarrow> string list \<Rightarrow> string set \<Rightarrow> panic + (string list \<times> string set)" where
  "evict_loop maxKeys [] hot = (if maxKeys \<le> 0 then Inl IndexOutOfRange else Inr ([], hot))"
| "evict_loop maxKeys (evictKey # rest) hot =
     (if maxKeys \<le> int (length (evictKey # rest))
      then evict_loop maxKeys rest (hot - {evictKey})
      else Inr (evictKey # rest, hot))"

definition promoteToHot :: "HotKeyDetector \<Rightarrow> string \<Rightarrow> panic + HotKeyDetector" where
  "promoteToHot d key =
     (if key \<in> hotKeys d then Inr d
      else case evict_loop (maxHotKeys d) (hotKeysList d) (hotKeys d) of
        Inl e \<Rightarrow> Inl e
      | Inr (lst, hot) \<Rightarrow> Inr (d\<lparr>hotKeys := insert key hot, hotKeysList := lst @ [key]\<rparr>))"

text \<open>The loop of \<open>cleanupColdKeys\<close> over the old list, carrying the new list and the set.\<close>

fun cleanup_loop ::
  "(u8 list \<Rightarrow> u64) \<Rightarrow> CountMinSketch \<Rightarrow> u32 \<Rightarrow> string list \<Rightarrow> string list \<times> string set
     \<Rightarrow> panic + (string list \<times> string set)" where
  "cleanup_loop Sum64 sk threshold [] acc = Inr acc"
| "cleanup_loop Sum64 sk threshold (key # rest) (newList, hot) =
     (case Estimate Sum64 sk key of
        Inl e \<Rightarrow> Inl e
      | Inr est \<Rightarrow>
          if threshold \<le> est
          then cleanup_loop Sum64 sk threshold rest (newList @ [key], hot)
          else cleanup_loop Sum64 sk threshold rest (newList, hot - {key}))"

definition cleanupColdKeys :: "(u8 list \<Rightarrow> u64) \<Rightarrow> HotKeyDetector \<Rightarrow> panic + HotKeyDetector" where
  "cleanupColdKeys Sum64 d =
     (case cleanup_loop Sum64 (cms d) (hotThreshold d) (hotKeysList d) ([], hotKeys d) of
        Inl e \<Rightarrow> Inl e
      | Inr (newList, hot) \<Rightarrow> Inr (d\<lparr>hotKeys := hot, hotKeysList := newList\<rparr>))"

definition maybeDecay ::
  "(u8 list \<Rightarrow> u64) \<Rightarrow> (u32 \<Rightarrow> u32) \<Rightarrow> HotKeyDetector \<Rightarrow> int \<Rightarrow> panic + HotKeyDetector" where
  "maybeDecay Sum64 scale d now =
     (if \<not> (decayInterval d \<le> now - lastDecayTime d) then Inr d
      else case Decay scale (cms d) of
        Inl e \<Rightarrow> Inl e
      | Inr sk \<Rightarrow> cleanupColdKeys Sum64 (d\<lparr>lastDecayTime := now, cms := sk\<rparr>))"

text \<open>
  \<open>RecordAccessWithDelta\<close>; \<open>RecordAccess\<close> is the same code with \<open>delta = 1\<close>.
\<close>

definition RecordAccessWithDelta ::
  "(u8 list \<Rightarrow> u64) \<Rightarrow> (u32 \<Rightarrow> u32) \<Rightarrow> HotKeyDetector \<Rightarrow> string \<Rightarrow> u32 \<Rightarrow> int
     \<Rightarrow> panic + (HotKeyDetector \<times> bool)" where
  "RecordAccessWithDelta Sum64 scale d key delta now =
     (case maybeDecay Sum64 scale d now of
        Inl e \<Rightarrow> Inl e
      | Inr d1 \<Rightarrow>
          (case Increment Sum64 (cms d1) key delta of
             Inl e \<Rightarrow> Inl e
           | Inr (sk, count) \<Rightarrow>
               let d2 = d1\<lparr>cms := sk\<rparr> in
               if isHot d2 key then Inr (touchHotKey d2 key, True)
               else if hotThreshold d2 \<le> count
               then (case promoteToHot d2 key of Inl e \<Rightarrow> Inl e | Inr d3 \<Rightarrow> Inr (d3, True))
               else Inr (d2, False)))"

definition RecordAccess ::
  "(u8 list \<Rightarrow> u64) \<Rightarrow> (u32 \<Rightarrow> u32) \<Rightarrow> HotKeyDetector \<Rightarrow> string \<Rightarrow> int
     \<Rightarrow> panic + (HotKeyDetector \<times> bool)" where
  "RecordAccess Sum64 scale d key now = RecordAccessWithDelta Sum64 scale d key 1 now"







text \<open>Halving, the effect of the default decay factor 0.5 on a counter.\<close>

definition halve :: "u32 \<Rightarrow> u32" where
  "halve c = drop_bit 1 c"









section \<open>The fixed-window engine\<close>

text \<open>
  A client of the store driver: its slot function and its pipeline execution, both
  parameters. \<open>CacheKey\<close> is the key generated for a descriptor.
\<close>

record Client =
  GetSlot :: "string \<Rightarrow> u16"
  PipeDo :: PipeDo

record CacheKey =
  Key :: string
  PerSecond :: bool

text \<open>
  The base rate limiter is not part of the modelled sources; the functions \<open>DoLimit\<close>
  calls are parameters. \<open>'l\<close> is the type of a rate-limit rule, \<open>'st\<close> that of a
  descriptor status. \<open>IsOverLimitThresholdReached\<close> and \<open>GetResponseDescriptorStatus\<close>
  take the rule and the two counts of the \<open>limitInfo\<close> built by \<open>NewRateLimitInfo\<close>;
  \<open>JitterRand i\<close> is the draw of \<open>Int63n\<close> made for descriptor \<open>i\<close>.
\<close>

record ('l, 'st) BaseRateLimiter =
  IsOverLimitWithLocalCache :: "string \<Rightarrow> bool"
  IsOverLimitThresholdReached :: "'l \<Rightarrow> u64 \<Rightarrow> u64 \<Rightarrow> bool"
  GetResponseDescriptorStatus :: "string \<Rightarrow> 'l \<Rightarrow> u64 \<Rightarrow> u64 \<Rightarrow> bool \<Rightarrow> u64 \<Rightarrow> 'st"
  ExpirationJitterMaxSeconds :: int
  JitterRand :: "nat \<Rightarrow> int"

record ('l, 'st) fixedRateLimitCacheImpl =
  client :: Client
  perSecondClient :: "Client option"
  stopCacheKeyIncrementWhenOverlimit :: bool
  baseRateLimiter :: "('l, 'st) BaseRateLimiter"
  hotKeyDetector :: "HotKeyDetector option"
  hotKeyBatcher :: "HotKeyBatcher option"
  perSecondBatcher :: "HotKeyBatcher option"

definition getHitsAddend ::
  "('l, 'st) fixedRateLimitCacheImpl \<Rightarrow> u64 \<Rightarrow> bool \<Rightarrow> bool \<Rightarrow> bool \<Rightarrow> u64" where
  "getHitsAddend this hits isCacheKeyOverlimit isCacheKeyNearlimit isNearLimt =
     (if \<not> stopCacheKeyIncrementWhenOverlimit this then hits
      else if isCacheKeyOverlimit then 0
      else if \<not> isCacheKeyNearlimit then hits
      else if isNearLimt then hits
      else 0)"

text \<open>
  The request as \<open>DoLimit\<close> sees it after \<open>GetHitsAddends\<close> and \<open>GenerateCacheKeys\<close>: the
  arrays \<open>cacheKeys\<close>, \<open>hitsAddends\<close> and \<open>limits\<close>, all of the length of
  \<open>request.Descriptors\<close>, as one list of entries.
\<close>

record 'l descriptor =
  cacheKey :: CacheKey
  hitsAddendAt :: u64
  limitAt :: 'l

text \<open>
  What \<open>DoLimit\<close> takes from outside the engine: the hash and decay parameters of the
  detector, the clock, \<open>utils.UnitToDivider\<close> of a rule's unit, and what each result
  channel of a batcher eventually delivers (the flush runs in another goroutine).
\<close>

record 'l surroundings =
  xxhashSum64 :: "u8 list \<Rightarrow> u64"
  decayScale :: "u32 \<Rightarrow> u32"
  clock :: int
  UnitToDivider :: "'l \<Rightarrow> int"
  received :: "nat \<Rightarrow> HotKeyBatcherResult"

text \<open>
  The pipelines of one client, a Go map from slot to pipeline, as an association list in
  the order in which the slots were first used; receivers are indices into \<open>results\<close> or
  \<open>currentCount\<close>. Reading an absent slot gives the nil pipeline.
\<close>

type_synonym SlotPipelines = "(u16 \<times> nat Pipeline) list"

definition pipeline_at :: "SlotPipelines \<Rightarrow> u16 \<Rightarrow> nat Pipeline" where
  "pipeline_at pipelines slot = (case map_of pipelines slot of None \<Rightarrow> [] | Some p \<Rightarrow> p)"

definition pipelineAppend :: "nat Pipeline \<Rightarrow> string \<Rightarrow> u64 \<Rightarrow> nat \<Rightarrow> int \<Rightarrow> nat Pipeline" where
  "pipelineAppend pipeline k hits result expiration =
     PipeAppend (PipeAppend pipeline (Some result) (INCRBY k hits)) None (EXPIRE k expiration)"

definition pipelineAppendtoGet :: "nat Pipeline \<Rightarrow> string \<Rightarrow> nat \<Rightarrow> nat Pipeline" where
  "pipelineAppendtoGet pipeline k result = PipeAppend pipeline (Some result) (GET k)"

fun command_key :: "command \<Rightarrow> string" where
  "command_key (INCRBY k n) = k"
| "command_key (EXPIRE k t) = k"
| "command_key (GET k) = k"

text \<open>
  The first loop: which descriptors the local cache reports over limit. A descriptor with
  an empty key is passed over.
\<close>

definition local_overlimit :: "('l, 'st) fixedRateLimitCacheImpl \<Rightarrow> 'l descriptor \<Rightarrow> bool" where
  "local_overlimit this d \<longleftrightarrow>
     Key (cacheKey d) \<noteq> [] \<and> IsOverLimitWithLocalCache (baseRateLimiter this) (Key (cacheKey d))"

text \<open>Whether a key goes to the per-second client.\<close>

definition uses_perSecond :: "('l, 'st) fixedRateLimitCacheImpl \<Rightarrow> CacheKey \<Rightarrow> bool" where
  "uses_perSecond this ck \<longleftrightarrow> perSecondClient this \<noteq> None \<and> PerSecond ck"

definition perSecond_GetSlot :: "('l, 'st) fixedRateLimitCacheImpl \<Rightarrow> string \<Rightarrow> u16" where
  "perSecond_GetSlot this k = (case perSecondClient this of None \<Rightarrow> 0 | Some c \<Rightarrow> GetSlot c k)"

definition perSecond_PipeDo :: "('l, 'st) fixedRateLimitCacheImpl \<Rightarrow> PipeDo" where
  "perSecond_PipeDo this cmds = (case perSecondClient this of None \<Rightarrow> Inr [] | Some c \<Rightarrow> PipeDo c cmds)"

text \<open>
  The loop that builds the GET pipelines of the pre-read, over the descriptors with their
  indices; the state is \<open>(pipelinesToGet, perSecondPipelinesToGet)\<close>.
\<close>

fun build_gets ::
  "('l, 'st) fixedRateLimitCacheImpl \<Rightarrow> (nat \<times> 'l descriptor) list
     \<Rightarrow> SlotPipelines \<times> SlotPipelines \<Rightarrow> SlotPipelines \<times> SlotPipelines" where
  "build_gets this [] st = st"
| "build_gets this ((i, d) # rest) (pipelinesToGet, perSecondPipelinesToGet) =
     (if Key (cacheKey d) = [] then build_gets this rest (pipelinesToGet, perSecondPipelinesToGet)
      else if uses_perSecond this (cacheKey d) then
        let slot = perSecond_GetSlot this (Key (cacheKey d));
            pipeline = pipelineAppendtoGet (pipeline_at perSecondPipelinesToGet slot) (Key (cacheKey d)) i
        in build_gets this rest
             (pipelinesToGet, AList.update slot pipeline perSecondPipelinesToGet)
      else
        let slot = GetSlot (client this) (Key (cacheKey d));
            pipeline = pipelineAppendtoGet (pipeline_at pipelinesToGet slot) (Key (cacheKey d)) i
        in build_gets this rest
             (AList.update slot pipeline pipelinesToGet, perSecondPipelinesToGet))"

text \<open>
  Execution of the pipelines of one map. Every call of the driver is logged as (the
  per-second client or not, the slot, the commands). The GET pipelines run one after the
  other and the first error panics at once; the increment pipelines all run (each in its
  goroutine) and the first error is kept. The list order stands for the order in which Go
  ranges over the map.
\<close>

record execution =
  executed :: "(bool \<times> u16 \<times> command list) list"
  failure :: "string option"
  memory :: "nat \<Rightarrow> u64"

fun exec_in_turn :: "bool \<Rightarrow> PipeDo \<Rightarrow> SlotPipelines \<Rightarrow> execution \<Rightarrow> execution" where
  "exec_in_turn ps pipeDo [] ex = ex"
| "exec_in_turn ps pipeDo ((slot, pipeline) # rest) ex =
     (if failure ex \<noteq> None then ex
      else if pipeline = [] then exec_in_turn ps pipeDo rest ex
      else case pipeDo (map snd pipeline) of
        Inl e \<Rightarrow> ex\<lparr>executed := executed ex @ [(ps, slot, map snd pipeline)], failure := Some e\<rparr>
      | Inr vs \<Rightarrow>
          exec_in_turn ps pipeDo rest
            (ex\<lparr>executed := executed ex @ [(ps, slot, map snd pipeline)],
                memory := write_replies pipeline vs (memory ex)\<rparr>))"

fun exec_all :: "bool \<Rightarrow> PipeDo \<Rightarrow> SlotPipelines \<Rightarrow> execution \<Rightarrow> execution" where
  "exec_all ps pipeDo [] ex = ex"
| "exec_all ps pipeDo ((slot, pipeline) # rest) ex =
     (if pipeline = [] then exec_all ps pipeDo rest ex
      else case pipeDo (map snd pipeline) of
        Inl e \<Rightarrow>
          exec_all ps pipeDo rest
            (ex\<lparr>executed := executed ex @ [(ps, slot, map snd pipeline)],
                failure := (if failure ex = None then Some e else failure ex)\<rparr>)
      | Inr vs \<Rightarrow>
          exec_all ps pipeDo rest
            (ex\<lparr>executed := executed ex @ [(ps, slot, map snd pipeline)],
                memory := write_replies pipeline vs (memory ex)\<rparr>))"

text \<open>
  The state of the increment loop: the two pipeline maps, the result channels of the
  descriptors handed to a batcher (a Go map from index to channel), and the detector and
  the batchers, which the loop changes.
\<close>

record increments =
  pipelines :: SlotPipelines
  perSecondPipelines :: SlotPipelines
  hotKeyResultChans :: "(nat \<times> nat) list"
  detectorNow :: "HotKeyDetector option"
  batcherNow :: "HotKeyBatcher option"
  perSecondBatcherNow :: "HotKeyBatcher option"

text \<open>
  \<open>this.hotKeyDetector != nil && batcher != nil && this.hotKeyDetector.RecordAccess(key)\<close>:
  \<open>RecordAccess\<close> runs only when both are set; it returns the detector it leaves behind.
\<close>

definition hot_check ::
  "'l surroundings \<Rightarrow> HotKeyDetector option \<Rightarrow> HotKeyBatcher option \<Rightarrow> string
     \<Rightarrow> panic + (HotKeyDetector option \<times> bool)" where
  "hot_check w det bat k =
     (case det of
        None \<Rightarrow> Inr (None, False)
      | Some d \<Rightarrow>
          (case bat of
             None \<Rightarrow> Inr (Some d, False)
           | Some b \<Rightarrow>
               (case RecordAccess (xxhashSum64 w) (decayScale w) d k (clock w) of
                  Inl e \<Rightarrow> Inl e
                | Inr (d', hot) \<Rightarrow> Inr (Some d', hot))))"

fun build_increments ::
  "'l surroundings \<Rightarrow> ('l, 'st) fixedRateLimitCacheImpl \<Rightarrow> bool \<Rightarrow> bool \<Rightarrow> (nat \<Rightarrow> bool)
     \<Rightarrow> (nat \<times> 'l descriptor) list \<Rightarrow> increments \<Rightarrow> panic + increments" where
  "build_increments w this isCacheKeyOverlimit isCacheKeyNearlimit nearlimitIndexes [] st = Inr st"
| "build_increments w this isCacheKeyOverlimit isCacheKeyNearlimit nearlimitIndexes ((i, d) # rest) st =
     (if Key (cacheKey d) = [] \<or> local_overlimit this d
      then build_increments w this isCacheKeyOverlimit isCacheKeyNearlimit nearlimitIndexes rest st
      else
        let k = Key (cacheKey d);
            expirationSeconds =
              UnitToDivider w (limitAt d)
              + (if ExpirationJitterMaxSeconds (baseRateLimiter this) > 0
                 then JitterRand (baseRateLimiter this) i else 0);
            hits = getHitsAddend this (hitsAddendAt d) isCacheKeyOverlimit isCacheKeyNearlimit
                     (nearlimitIndexes i)
        in if uses_perSecond this (cacheKey d) then
             (case hot_check w (detectorNow st) (perSecondBatcherNow st) k of
                Inl e \<Rightarrow> Inl e
              | Inr (det, hot) \<Rightarrow>
                  if hot then
                    (case Submit (the (perSecondBatcherNow st)) k hits expirationSeconds of
                       (b, ch) \<Rightarrow>
                         build_increments w this isCacheKeyOverlimit isCacheKeyNearlimit
                           nearlimitIndexes rest
                           (st\<lparr>detectorNow := det, perSecondBatcherNow := Some b,
                               hotKeyResultChans := AList.update i ch (hotKeyResultChans st)\<rparr>))
                  else
                    let slot = perSecond_GetSlot this k;
                        pipeline = pipelineAppend (pipeline_at (perSecondPipelines st) slot) k hits i
                                     expirationSeconds
                    in build_increments w this isCacheKeyOverlimit isCacheKeyNearlimit
                         nearlimitIndexes rest
                         (st\<lparr>detectorNow := det,
                             perSecondPipelines := AList.update slot pipeline (perSecondPipelines st)\<rparr>))
           else
             (case hot_check w (detectorNow st) (batcherNow st) k of
                Inl e \<Rightarrow> Inl e
              | Inr (det, hot) \<Rightarrow>
                  if hot then
                    (case Submit (the (batcherNow st)) k hits expirationSeconds of
                       (b, ch) \<Rightarrow>
                         build_increments w this isCacheKeyOverlimit isCacheKeyNearlimit
                           nearlimitIndexes rest
                           (st\<lparr>detectorNow := det, batcherNow := Some b,
                               hotKeyResultChans := AList.update i ch (hotKeyResultChans st)\<rparr>))
                  else
                    let slot = GetSlot (client this) k;
                        pipeline = pipelineAppend (pipeline_at (pipelines st) slot) k hits i
                                     expirationSeconds
                    in build_increments w this isCacheKeyOverlimit isCacheKeyNearlimit
                         nearlimitIndexes rest
                         (st\<lparr>detectorNow := det,
                             pipelines := AList.update slot pipeline (pipelines st)\<rparr>)))"

text \<open>The loop that waits for the batched results; an error panics.\<close>

fun await_hot ::
  "(nat \<Rightarrow> HotKeyBatcherResult) \<Rightarrow> (nat \<times> nat) list \<Rightarrow> (nat \<Rightarrow> u64) \<Rightarrow> panic + (nat \<Rightarrow> u64)" where
  "await_hot rcv [] results = Inr results"
| "await_hot rcv ((i, resultChan') # rest) results =
     (case Err (rcv resultChan') of
        Some e \<Rightarrow> Inl (StoreError e)
      | None \<Rightarrow> await_hot rcv rest (results(i := Value (rcv resultChan'))))"

text \<open>The last loop: the status of each descriptor from \<open>results\<close>; \<open>-\<close> on \<open>uint64\<close> wraps.\<close>

definition statuses_of ::
  "('l, 'st) fixedRateLimitCacheImpl \<Rightarrow> (nat \<Rightarrow> u64) \<Rightarrow> (nat \<times> 'l descriptor) list \<Rightarrow> 'st list" where
  "statuses_of this results ds =
     map (\<lambda>(i, d).
            let limitAfterIncrease = results i;
                limitBeforeIncrease = limitAfterIncrease - hitsAddendAt d
            in GetResponseDescriptorStatus (baseRateLimiter this) (Key (cacheKey d)) (limitAt d)
                 limitBeforeIncrease limitAfterIncrease (local_overlimit this d) (hitsAddendAt d))
         ds"

text \<open>
  The near-limit classification of the pre-read, from \<open>currentCount\<close>, and \<open>DoLimit\<close>
  itself. Its outcome holds the log of the driver calls, the statuses or the panic, and the
  detector and batchers it leaves behind (those at entry when the increment loop panics).
\<close>

definition nearlimit_of ::
  "('l, 'st) fixedRateLimitCacheImpl \<Rightarrow> (nat \<Rightarrow> u64) \<Rightarrow> nat \<times> 'l descriptor \<Rightarrow> bool" where
  "nearlimit_of this currentCount entry =
     (case entry of (i, d) \<Rightarrow>
        Key (cacheKey d) \<noteq> []
        \<and> (let limitBeforeIncrease = currentCount i;
                limitAfterIncrease = limitBeforeIncrease + hitsAddendAt d
            in IsOverLimitThresholdReached (baseRateLimiter this) (limitAt d)
                 limitBeforeIncrease limitAfterIncrease))"

record 'st outcome =
  pipeDoLog :: "(bool \<times> u16 \<times> command list) list"
  verdicts :: "panic + 'st list"
  detectorAfter :: "HotKeyDetector option"
  batcherAfter :: "HotKeyBatcher option"
  perSecondBatcherAfter :: "HotKeyBatcher option"

definition DoLimit ::
  "'l surroundings \<Rightarrow> ('l, 'st) fixedRateLimitCacheImpl \<Rightarrow> 'l descriptor list \<Rightarrow> 'st outcome" where
  "DoLimit w this descriptors =
     (let ds = enumerate 0 descriptors;
          isCacheKeyOverlimit = list_ex (local_overlimit this) descriptors;
          start = \<lparr>executed = [], failure = None, memory = (\<lambda>i. 0)\<rparr>;
          preread =
            (if stopCacheKeyIncrementWhenOverlimit this \<and> \<not> isCacheKeyOverlimit
             then (case build_gets this ds ([], []) of
                     (pipelinesToGet, perSecondPipelinesToGet) \<Rightarrow>
                       exec_in_turn True (perSecond_PipeDo this) perSecondPipelinesToGet
                         (exec_in_turn False (PipeDo (client this)) pipelinesToGet start))
             else start)
      in case failure preread of
           Some e \<Rightarrow>
             \<lparr>pipeDoLog = executed preread, verdicts = Inl (StoreError e),
              detectorAfter = hotKeyDetector this, batcherAfter = hotKeyBatcher this,
              perSecondBatcherAfter = perSecondBatcher this\<rparr>
         | None \<Rightarrow>
             let currentCount = memory preread;
                 prereadDone = stopCacheKeyIncrementWhenOverlimit this \<and> \<not> isCacheKeyOverlimit;
                 nearlimitIndexes =
                   (\<lambda>i. prereadDone \<and> i < length descriptors
                        \<and> nearlimit_of this currentCount (i, descriptors ! i));
                 isCacheKeyNearlimit = (prereadDone \<and> list_ex (nearlimit_of this currentCount) ds)
             in case build_increments w this isCacheKeyOverlimit isCacheKeyNearlimit
                       nearlimitIndexes ds
                       \<lparr>pipelines = [], perSecondPipelines = [], hotKeyResultChans = [],
                        detectorNow = hotKeyDetector this, batcherNow = hotKeyBatcher this,
                        perSecondBatcherNow = perSecondBatcher this\<rparr> of
                  Inl e \<Rightarrow>
                    \<lparr>pipeDoLog = executed preread, verdicts = Inl e,
                     detectorAfter = hotKeyDetector this, batcherAfter = hotKeyBatcher this,
                     perSecondBatcherAfter = perSecondBatcher this\<rparr>
                | Inr st \<Rightarrow>
                    let run = exec_all True (perSecond_PipeDo this) (perSecondPipelines st)
                                (exec_all False (PipeDo (client this)) (pipelines st)
                                   \<lparr>executed = executed preread, failure = None, memory = (\<lambda>i. 0)\<rparr>)
                    in \<lparr>pipeDoLog = executed run,
                        verdicts =
                          (case failure run of
                             Some e \<Rightarrow> Inl (StoreError e)
                           | None \<Rightarrow>
                               (case await_hot (received w) (hotKeyResultChans st) (memory run) of
                                  Inl e \<Rightarrow> Inl e
                                | Inr results \<Rightarrow> Inr (statuses_of this results ds))),
                        detectorAfter = detectorNow st, batcherAfter = batcherNow st,
                        perSecondBatcherAfter = perSecondBatcherNow st\<rparr>)"

text \<open>
  The slot rule. \<open>slot_of_log\<close> is the slot function of the client a logged call went to;
  a logged call is in order when its pipeline is not empty and every key in it has the slot
  the pipeline was filed under. \<open>slot_pure\<close> says the same of a map of pipelines.
\<close>

definition slot_pure :: "(string \<Rightarrow> u16) \<Rightarrow> SlotPipelines \<Rightarrow> bool" where
  "slot_pure getSlot pls \<longleftrightarrow>
     (\<forall>sp \<in> set pls. \<forall>rc \<in> set (snd sp). getSlot (command_key (snd rc)) = fst sp)"

definition slot_of_log ::
  "('l, 'st) fixedRateLimitCacheImpl \<Rightarrow> bool \<Rightarrow> string \<Rightarrow> u16" where
  "slot_of_log this ps k = (if ps then perSecond_GetSlot this k else GetSlot (client this) k)"

definition log_entry_ok ::
  "('l, 'st) fixedRateLimitCacheImpl \<Rightarrow> bool \<times> u16 \<times> command list \<Rightarrow> bool" where
  "log_entry_ok this entry =
     (case entry of (ps, slot, cmds) \<Rightarrow>
        cmds \<noteq> [] \<and> list_all (\<lambda>c. slot_of_log this ps (command_key c) = slot) cmds)"

text \<open>
  The receivers of the pipelines of a map all lie in a set of indices, and the invariant of
  the increment loop: both maps obey the slot rule, and only indices of \<open>S\<close> are
  receivers or wait for a batched result.
\<close>

definition rcv_in :: "nat set \<Rightarrow> SlotPipelines \<Rightarrow> bool" where
  "rcv_in S pls \<longleftrightarrow> (\<forall>sp \<in> set pls. \<forall>rc \<in> set (snd sp). \<forall>r. fst rc = Some r \<longrightarrow> r \<in> S)"

definition incr_inv :: "('l, 'st) fixedRateLimitCacheImpl \<Rightarrow> nat set \<Rightarrow> increments \<Rightarrow> bool" where
  "incr_inv this S st \<longleftrightarrow>
     slot_pure (GetSlot (client this)) (pipelines st)
     \<and> slot_pure (perSecond_GetSlot this) (perSecondPipelines st)
     \<and> rcv_in S (pipelines st) \<and> rcv_in S (perSecondPipelines st)
     \<and> fst ` set (hotKeyResultChans st) \<subseteq> S"

text \<open>
  A concrete engine: a client whose slot is the length of the key and whose store starts
  with every counter at 0, no per-second client, no hot-key detection, the policy off, a
  local cache that reports the key \<open>over\<close>, and a status that shows the two counts it
  was computed from; and a request of five descriptors, one with an empty key.
\<close>

definition length_slot_client :: "PipeDo \<Rightarrow> Client" where
  "length_slot_client pd = \<lparr>GetSlot = (\<lambda>k. of_nat (length k)), PipeDo = pd\<rparr>"

definition sample_limiter :: "(unit, u64 \<times> u64) BaseRateLimiter" where
  "sample_limiter =
     \<lparr>IsOverLimitWithLocalCache = (\<lambda>k. k = ''over''),
      IsOverLimitThresholdReached = (\<lambda>l before after. False),
      GetResponseDescriptorStatus = (\<lambda>k l before after localOver hits. (before, after)),
      ExpirationJitterMaxSeconds = 0,
      JitterRand = (\<lambda>i. 0)\<rparr>"

definition sample_engine :: "(unit, u64 \<times> u64) fixedRateLimitCacheImpl" where
  "sample_engine =
     \<lparr>client = length_slot_client (counter_store 0), perSecondClient = None,
      stopCacheKeyIncrementWhenOverlimit = False, baseRateLimiter = sample_limiter,
      hotKeyDetector = None, hotKeyBatcher = None, perSecondBatcher = None\<rparr>"

definition sample_surroundings :: "unit surroundings" where
  "sample_surroundings =
     \<lparr>xxhashSum64 = zero_hash, decayScale = halve, clock = 0, UnitToDivider = (\<lambda>l. 60),
      received = (\<lambda>ch. \<lparr>Value = 0, Err = None\<rparr>)\<rparr>"

definition sample_descriptors :: "unit descriptor list" where
  "sample_descriptors =
     [\<lparr>cacheKey = \<lparr>Key = ''a'', PerSecond = False\<rparr>, hitsAddendAt = 1, limitAt = ()\<rparr>,
      \<lparr>cacheKey = \<lparr>Key = [], PerSecond = False\<rparr>, hitsAddendAt = 1, limitAt = ()\<rparr>,
      \<lparr>cacheKey = \<lparr>Key = ''bb'', PerSecond = False\<rparr>, hitsAddendAt = 2, limitAt = ()\<rparr>,
      \<lparr>cacheKey = \<lparr>Key = ''c'', PerSecond = False\<rparr>, hitsAddendAt = 3, limitAt = ()\<rparr>,
      \<lparr>cacheKey = \<lparr>Key = ''over'', PerSecond = False\<rparr>, hitsAddendAt = 5, limitAt = ()\<rparr>]"

text \<open>
  The same engine with hot-key detection on, as \<open>NewFixedRateLimitCacheImpl\<close> sets it up: a
  new detector under which a key is hot from its first access, and a new batcher on the
  engine's client; and a request of two descriptors whose keys have the slots 1 and 2.
\<close>

definition hot_engine :: "(unit, u64 \<times> u64) fixedRateLimitCacheImpl" where
  "hot_engine =
     sample_engine
       \<lparr>hotKeyDetector :=
          Some (NewHotKeyDetector \<lparr>SketchMemoryBytes = 0, SketchDepth = 2, HotThreshold = 1,
                                    MaxHotKeys = 10, DecayInterval = 100\<rparr> 0),
        hotKeyBatcher := Some \<lparr>pending = [], chansMade = 0\<rparr>\<rparr>"

definition hot_descriptors :: "unit descriptor list" where
  "hot_descriptors =
     [\<lparr>cacheKey = \<lparr>Key = ''a'', PerSecond = False\<rparr>, hitsAddendAt = 1, limitAt = ()\<rparr>,
      \<lparr>cacheKey = \<lparr>Key = ''bb'', PerSecond = False\<rparr>, hitsAddendAt = 2, limitAt = ()\<rparr>]"

section \<open>The effective-hits policy: proofs\<close>

text \<open>
  C2. For every input, and every engine \<open>this\<close> apart from its policy flag, the
  effective-hits function returns \<open>hitsAddend\<close> when the stop-increment-when-overlimit
  policy is disabled; 0 when the policy is enabled and some key is over limit in the local
  cache; \<open>hitsAddend\<close> when the policy is enabled, no key is over limit and no key is near
  limit; and otherwise \<open>hitsAddend\<close> if this key is near limit, else 0.
\<close>

theorem getHitsAddend_table:
  "getHitsAddend (this\<lparr>stopCacheKeyIncrementWhenOverlimit := False\<rparr>) h anyOver anyNear isNear = h
   \<and> getHitsAddend (this\<lparr>stopCacheKeyIncrementWhenOverlimit := True\<rparr>) h True anyNear isNear = 0
   \<and> getHitsAddend (this\<lparr>stopCacheKeyIncrementWhenOverlimit := True\<rparr>) h False False isNear = h
   \<and> getHitsAddend (this\<lparr>stopCacheKeyIncrementWhenOverlimit := True\<rparr>) h False True isNear
       = (if isNear then h else 0)"
  by (simp add: getHitsAddend_def)

section \<open>Count-Min Sketch: proofs\<close>

subsection \<open>The constructor\<close>

lemma go_quot_nonneg: "0 \<le> a \<Longrightarrow> 0 < b \<Longrightarrow> go_quot a b = a div b"
  by (cases "a = 0") (simp_all add: go_quot_def)

text \<open>
  C9, as amended. For every \<open>depth\<close> the constructed sketch has its depth clamped into
  [2, 8], before the width is derived. For every \<open>memoryBytes \<ge> 0\<close> the width is
  \<open>max(256, (memoryBytes / (clampedDepth * 4)) mod 2^32)\<close> with integer division: the
  quotient is stored in a 32-bit field. Where the quotient is below \<open>2^32\<close> this is
  \<open>max(256, memoryBytes / (clampedDepth * 4))\<close>.
\<close>

theorem NewCountMinSketch_dims:
  "uint (depth (NewCountMinSketch memoryBytes d)) = max 2 (min 8 d)
   \<and> (0 \<le> memoryBytes \<longrightarrow>
        uint (width (NewCountMinSketch memoryBytes d))
          = max 256 ((memoryBytes div (max 2 (min 8 d) * 4)) mod 2 ^ 32)
      \<and> (memoryBytes div (max 2 (min 8 d) * 4) < 2 ^ 32 \<longrightarrow>
          uint (width (NewCountMinSketch memoryBytes d))
            = max 256 (memoryBytes div (max 2 (min 8 d) * 4))))"
proof -
  define c where "c = max 2 (min 8 d)"
  have c: "2 \<le> c" "c \<le> 8" by (simp_all add: c_def)
  have dep: "depth (NewCountMinSketch memoryBytes d) = word_of_int c"
    by (simp add: NewCountMinSketch_def Let_def c_def max_def min_def)
  have "uint (word_of_int c :: u32) = c"
    using c by (simp add: uint_word_of_int)
  hence 1: "uint (depth (NewCountMinSketch memoryBytes d)) = c" using dep by simp
  have wid: "width (NewCountMinSketch memoryBytes d) =
      (let w0 = (word_of_int (go_quot memoryBytes (c * 4)) :: u32) in if w0 < 256 then 256 else w0)"
    by (simp add: NewCountMinSketch_def Let_def c_def max_def min_def)
  have 2: "uint (width (NewCountMinSketch memoryBytes d)) = max 256 ((memoryBytes div (c * 4)) mod 2 ^ 32)"
    if "0 \<le> memoryBytes"
  proof -
    have q: "go_quot memoryBytes (c * 4) = memoryBytes div (c * 4)"
      using that c by (intro go_quot_nonneg) simp_all
    have u: "uint (word_of_int (memoryBytes div (c * 4)) :: u32) = (memoryBytes div (c * 4)) mod 2 ^ 32"
      by (simp add: uint_word_of_int)
    show ?thesis
      unfolding wid q Let_def
      by (simp add: word_less_def u max_def)
  qed
  have 3: "uint (width (NewCountMinSketch memoryBytes d)) = max 256 (memoryBytes div (c * 4))"
    if "0 \<le> memoryBytes" "memoryBytes div (c * 4) < 2 ^ 32"
  proof -
    have "0 \<le> memoryBytes div (c * 4)" using that c by (simp add: pos_imp_zdiv_nonneg_iff)
    hence "(memoryBytes div (c * 4)) mod 2 ^ 32 = memoryBytes div (c * 4)"
      using that by simp
    thus ?thesis using 2[OF that(1)] by simp
  qed
  show ?thesis using 1 2 3 unfolding c_def by blast
qed

theorem NewCountMinSketch_dims_witness:
  "(0::int) \<le> 10485760
   \<and> 10485760 div (max 2 (min 8 4) * 4) < (2 ^ 32 :: int)
   \<and> uint (depth (NewCountMinSketch 10485760 4)) = 4
   \<and> uint (width (NewCountMinSketch 10485760 4)) = 655360"
  using NewCountMinSketch_dims [of 10485760 4] by simp

text \<open>
  C9 as stated fails where the quotient does not fit 32 bits: a budget of \<open>2^35\<close> bytes at
  depth 2 gives the quotient \<open>2^32\<close>, whose low 32 bits are 0, and the width is 256.
\<close>

theorem NewCountMinSketch_width_truncated:
  "uint (width (NewCountMinSketch (2 ^ 35) 2)) = 256
   \<and> max 256 ((2 ^ 35 :: int) div (max 2 (min 8 2) * 4)) = 2 ^ 32"
  by (simp add: NewCountMinSketch_def go_quot_def Let_def)

text \<open>A negative budget: the quotient \<open>-4\<close> becomes the width \<open>2^32 - 4\<close>.\<close>

lemma NewCountMinSketch_negative_budget:
  "uint (width (NewCountMinSketch (- 32) 2)) = 4294967292"
  by (simp add: NewCountMinSketch_def go_quot_def Let_def)

subsection \<open>Increment and Estimate on a well-formed sketch\<close>

lemma unat_capped_add: "unat (capped_add a b) = min (unat a + unat b) (2 ^ 32 - 1)"
proof (cases "unat a + unat b < 2 ^ 32")
  case True
  hence le: "a \<le> a + b" by (simp add: no_olen_add_nat)
  have "unat a + unat b < 2 ^ LENGTH(32)" using True by simp
  hence "unat (a + b) = unat a + unat b" by (rule unat_add_lem[THEN iffD1])
  thus ?thesis using True le by (simp add: capped_add_def Let_def not_less[symmetric])
next
  case False
  hence "\<not> a \<le> a + b" by (simp add: no_olen_add_nat)
  hence "a + b < a" by (simp add: not_le)
  thus ?thesis using False by (simp add: capped_add_def Let_def)
qed

lemma cell_less: "width sk \<noteq> 0 \<Longrightarrow> cell Sum64 sk key i < unat (width sk)"
proof -
  assume w: "width sk \<noteq> 0"
  let ?W = "ucast (width sk) :: u64"
  let ?x = "Sum64 (seedBytes (seeds sk ! i) @ map of_char key)"
  have "unat (width sk) < 2 ^ 64"
    using unsigned_less[of "width sk", where 'a=nat] by simp
  hence uW: "unat ?W = unat (width sk)"
    by (simp add: unsigned_ucast_eq take_bit_nat_eq_self)
  hence "?W \<noteq> 0" using w by (metis unat_eq_zero)
  hence "0 < ?W" by (simp add: word_neq_0_conv)
  hence "?x mod ?W < ?W" by (rule word_mod_less_divisor)
  hence lt: "unat (?x mod ?W) < unat (width sk)" using uW by (simp add: word_less_nat_alt)
  have "unat (ucast (?x mod ?W) :: u32) \<le> unat (?x mod ?W)"
    by (simp add: unsigned_ucast_eq take_bit_nat_less_eq_self)
  thus ?thesis using lt w by (simp add: cell_def hash_def)
qed

lemma hash_cell: "width sk \<noteq> 0 \<Longrightarrow>
    \<exists>idx. hash Sum64 sk key (seeds sk ! i) = Inr idx \<and> unat idx = cell Sum64 sk key i"
  by (simp add: hash_def cell_def)

lemma cms_wf_row: "cms_wf sk \<Longrightarrow> i < unat (depth sk) \<Longrightarrow> length (counters sk ! i) = unat (width sk)"
  by (simp add: cms_wf_def list_all_length)

lemma cms_wf_update:
  assumes "cms_wf sk" "length r = unat (width sk)"
  shows "cms_wf (sk\<lparr>counters := (counters sk)[i := r]\<rparr>)"
  using assms
  by (cases "i < length (counters sk)")
     (auto simp: cms_wf_def list_all_length nth_list_update list_update_beyond)

lemma cell_update [simp]: "cell Sum64 (sk\<lparr>counters := c\<rparr>) key i = cell Sum64 sk key i"
  by (simp add: cell_def hash_def)

lemma if_less_min: "(if a < b then a else b) = min a (b::u32)"
  by (auto simp: min_def)

lemma Increment_loop_char:
  assumes "cms_wf sk" "\<forall>i\<in>set rows. i < unat (depth sk)" "distinct rows"
  shows "\<exists>sk'. Increment_loop Sum64 key delta rows (sk, m)
            = Inr (sk', fold (\<lambda>i m. min (capped_add (counters sk ! i ! cell Sum64 sk key i) delta) m) rows m)
          \<and> width sk' = width sk \<and> depth sk' = depth sk \<and> seeds sk' = seeds sk
          \<and> length (counters sk') = length (counters sk)
          \<and> (\<forall>i < length (counters sk). counters sk' ! i =
                (if i \<in> set rows then bumped_row Sum64 sk key delta i else counters sk ! i))"
  using assms
proof (induction rows arbitrary: sk m)
  case Nil
  then show ?case by simp
next
  case (Cons i rest)
  let ?c = "cell Sum64 sk key i"
  let ?new = "capped_add (counters sk ! i ! ?c) delta"
  let ?sk1 = "sk\<lparr>counters := (counters sk)[i := (counters sk ! i)[?c := ?new]]\<rparr>"
  let ?m1 = "min ?new m"
  from Cons.prems have wf: "cms_wf sk" and i: "i < unat (depth sk)"
    and rest: "\<forall>j\<in>set rest. j < unat (depth sk)" and inotin: "i \<notin> set rest" and dist: "distinct rest"
    by simp_all
  from wf have w0: "width sk \<noteq> 0" and ls: "length (seeds sk) = unat (depth sk)"
    and lc: "length (counters sk) = unat (depth sk)" by (simp_all add: cms_wf_def)
  from hash_cell[OF w0] obtain idx where h: "hash Sum64 sk key (seeds sk ! i) = Inr idx"
    and idx: "unat idx = ?c" by blast
  have rowlen: "length (counters sk ! i) = unat (width sk)" using cms_wf_row[OF wf i] .
  have clt: "?c < length (counters sk ! i)" using cell_less[OF w0] rowlen by simp
  have step: "Increment_loop Sum64 key delta (i # rest) (sk, m)
      = Increment_loop Sum64 key delta rest (?sk1, ?m1)"
    using i ls lc h idx clt by (simp add: Let_def if_less_min)
  have wf1: "cms_wf ?sk1" using wf rowlen by (intro cms_wf_update) simp_all
  have rest1: "\<forall>j\<in>set rest. j < unat (depth ?sk1)" using rest by simp
  from Cons.IH[OF wf1 rest1 dist, of ?m1] obtain sk' where
    run: "Increment_loop Sum64 key delta rest (?sk1, ?m1)
            = Inr (sk', fold (\<lambda>j m. min (capped_add (counters ?sk1 ! j ! cell Sum64 ?sk1 key j) delta) m) rest ?m1)"
    and same: "width sk' = width sk" "depth sk' = depth sk" "seeds sk' = seeds sk"
      "length (counters sk') = length (counters sk)"
    and rows: "\<forall>j < length (counters sk). counters sk' ! j =
                (if j \<in> set rest then bumped_row Sum64 ?sk1 key delta j else counters ?sk1 ! j)"
    by auto
  have other: "counters ?sk1 ! j = counters sk ! j" if "j \<in> set rest" for j
  proof -
    from that inotin have "i \<noteq> j" by auto
    thus ?thesis by simp
  qed
  have foldeq: "fold (\<lambda>j m. min (capped_add (counters ?sk1 ! j ! cell Sum64 ?sk1 key j) delta) m) rest ?m1
      = fold (\<lambda>j m. min (capped_add (counters sk ! j ! cell Sum64 sk key j) delta) m) (i # rest) m"
    using other by (simp cong: fold_cong)
  have rows': "counters sk' ! j =
      (if j \<in> set (i # rest) then bumped_row Sum64 sk key delta j else counters sk ! j)"
    if j: "j < length (counters sk)" for j
  proof (cases "j \<in> set rest")
    case True
    then show ?thesis using rows j other[OF True] inotin by (auto simp: bumped_row_def)
  next
    case False
    then show ?thesis using rows j lc i by (auto simp: bumped_row_def nth_list_update)
  qed
  show ?case using step run foldeq same rows' by auto
qed

lemma Estimate_loop_char:
  assumes "cms_wf sk" "\<forall>i\<in>set rows. i < unat (depth sk)"
  shows "Estimate_loop Sum64 sk key rows m
           = Inr (fold (\<lambda>i m. min (counters sk ! i ! cell Sum64 sk key i) m) rows m)"
  using assms
proof (induction rows arbitrary: m)
  case Nil
  then show ?case by simp
next
  case (Cons i rest)
  from Cons.prems have wf: "cms_wf sk" and i: "i < unat (depth sk)"
    and rest: "\<forall>j\<in>set rest. j < unat (depth sk)" by simp_all
  from wf have w0: "width sk \<noteq> 0" and ls: "length (seeds sk) = unat (depth sk)"
    and lc: "length (counters sk) = unat (depth sk)" by (simp_all add: cms_wf_def)
  from hash_cell[OF w0] obtain idx where h: "hash Sum64 sk key (seeds sk ! i) = Inr idx"
    and idx: "unat idx = cell Sum64 sk key i" by blast
  have clt: "cell Sum64 sk key i < length (counters sk ! i)"
    using cell_less[OF w0] cms_wf_row[OF wf i] by simp
  show ?case using i ls lc h idx clt Cons.IH[OF wf rest] by (simp add: Let_def if_less_min)
qed

lemma fold_min_Min:
  "fold (\<lambda>i m. min (f i) m) xs (m0::u32) = Min (insert m0 (f ` set xs))"
proof (induction xs arbitrary: m0)
  case Nil
  then show ?case by simp
next
  case (Cons x xs)
  have "Min (insert (min (f x) m0) (f ` set xs)) = Min (insert m0 (insert (f x) (f ` set xs)))"
    by (cases "set xs = {}") (simp_all add: min.assoc min.commute)
  then show ?case using Cons.IH by simp
qed

lemma Min_insert_top: "finite A \<Longrightarrow> A \<noteq> {} \<Longrightarrow> Min (insert (0xFFFFFFFF::u32) A) = Min A"
proof -
  assume a: "finite A" "A \<noteq> {}"
  have "Min A \<le> (- 1 :: u32)" by simp
  hence "min (- 1) (Min A) = Min A" by (rule min_absorb2)
  moreover have eq: "(0xFFFFFFFF::u32) = - 1" by simp
  moreover have "Min (insert (- 1) A) = min (- 1) (Min A)" using a by (rule Min_insert)
  ultimately show ?thesis by (simp only:)
qed

lemma fold_min_rows:
  "n \<noteq> 0 \<Longrightarrow> fold (\<lambda>i m. min (f i) m) [0..<n] (0xFFFFFFFF::u32) = Min (f ` {..<n})"
proof -
  assume "n \<noteq> 0"
  hence "f ` {..<n} \<noteq> {}" by auto
  hence "Min (insert 0xFFFFFFFF (f ` {..<n})) = Min (f ` {..<n})"
    by (intro Min_insert_top) simp_all
  moreover have "set [0..<n] = {..<n}" by auto
  ultimately show ?thesis by (simp only: fold_min_Min)
qed

lemma Estimate_char:
  assumes "cms_wf sk"
  shows "Estimate Sum64 sk key
           = Inr (Min ((\<lambda>i. counters sk ! i ! cell Sum64 sk key i) ` {..<unat (depth sk)}))"
proof -
  have "unat (depth sk) \<noteq> 0" using assms by (simp add: cms_wf_def unat_eq_zero)
  thus ?thesis
    unfolding Estimate_def by (simp add: Estimate_loop_char[OF assms] fold_min_rows)
qed

lemma Increment_char:
  assumes "cms_wf sk"
  shows "\<exists>sk'. Increment Sum64 sk key delta
            = Inr (sk', Min ((\<lambda>i. capped_add (counters sk ! i ! cell Sum64 sk key i) delta)
                               ` {..<unat (depth sk)}))
          \<and> cms_wf sk'
          \<and> width sk' = width sk \<and> depth sk' = depth sk \<and> seeds sk' = seeds sk
          \<and> (\<forall>i < unat (depth sk). counters sk' ! i = bumped_row Sum64 sk key delta i)"
proof -
  have n0: "unat (depth sk) \<noteq> 0" using assms by (simp add: cms_wf_def unat_eq_zero)
  have lc: "length (counters sk) = unat (depth sk)" using assms by (simp add: cms_wf_def)
  from Increment_loop_char[OF assms, of "[0..<unat (depth sk)]" Sum64 key delta "0xFFFFFFFF"]
  obtain sk' where
    run: "Increment_loop Sum64 key delta [0..<unat (depth sk)] (sk, 0xFFFFFFFF)
            = Inr (sk', fold (\<lambda>i m. min (capped_add (counters sk ! i ! cell Sum64 sk key i) delta) m)
                          [0..<unat (depth sk)] 0xFFFFFFFF)"
    and same: "width sk' = width sk" "depth sk' = depth sk" "seeds sk' = seeds sk"
      "length (counters sk') = length (counters sk)"
    and rows: "\<forall>i < length (counters sk). counters sk' ! i =
                (if i \<in> set [0..<unat (depth sk)] then bumped_row Sum64 sk key delta i
                 else counters sk ! i)"
    by auto
  have rows': "\<forall>i < unat (depth sk). counters sk' ! i = bumped_row Sum64 sk key delta i"
    using rows lc by simp
  have "length (bumped_row Sum64 sk key delta i) = unat (width sk)" if "i < unat (depth sk)" for i
    using cms_wf_row[OF assms that] by (simp add: bumped_row_def)
  hence wf': "cms_wf sk'"
    using assms same rows' lc by (simp add: cms_wf_def list_all_length)
  show ?thesis
    using run same rows' wf' n0 by (simp add: Increment_def fold_min_rows)
qed

lemma NewCountMinSketch_fields:
  "depth (NewCountMinSketch memoryBytes d) = word_of_int (max 2 (min 8 d))"
  "256 \<le> width (NewCountMinSketch memoryBytes d)"
  "counters (NewCountMinSketch memoryBytes d)
     = replicate (nat (max 2 (min 8 d)))
         (replicate (unat (width (NewCountMinSketch memoryBytes d))) 0)"
  "length (seeds (NewCountMinSketch memoryBytes d)) = nat (max 2 (min 8 d))"
  by (simp_all add: NewCountMinSketch_def Let_def max_def min_def not_less)

lemma NewCountMinSketch_wf: "cms_wf (NewCountMinSketch memoryBytes d)"
proof -
  define c where "c = max 2 (min 8 d)"
  have c: "2 \<le> c" "c \<le> 8" by (simp_all add: c_def)
  have u: "uint (word_of_int c :: u32) = c" using c by (simp add: uint_word_of_int)
  hence un: "unat (word_of_int c :: u32) = nat c" by (simp add: unat_eq_nat_uint)
  have nz: "(word_of_int c :: u32) \<noteq> 0" using u c by auto
  have w: "width (NewCountMinSketch memoryBytes d) \<noteq> 0"
    using NewCountMinSketch_fields(2)[of memoryBytes d] by auto
  show ?thesis
    unfolding cms_wf_def NewCountMinSketch_fields(1,3,4) c_def[symmetric]
    using un nz w by (simp add: list_all_length)
qed

lemma cell_cong: "width a = width b \<Longrightarrow> seeds a = seeds b \<Longrightarrow> cell Sum64 a key i = cell Sum64 b key i"
  by (simp add: cell_def hash_def)

lemma Increment_cell_ge:
  assumes wf: "cms_wf sk" and i: "i < unat (depth sk)"
    and inc: "Increment Sum64 sk k1 d = Inr (sk', r)"
  shows "min (unat (counters sk ! i ! cell Sum64 sk k i) + (if k1 = k then unat d else 0))
             (2 ^ 32 - 1)
           \<le> unat (counters sk' ! i ! cell Sum64 sk k i)"
proof -
  from Increment_char[OF wf, of Sum64 k1 d] inc
  have row: "counters sk' ! i = bumped_row Sum64 sk k1 d i" using i by auto
  have w0: "width sk \<noteq> 0" using wf by (simp add: cms_wf_def)
  have len: "cell Sum64 sk k i < length (counters sk ! i)"
    using cell_less[OF w0] cms_wf_row[OF wf i] by simp
  show ?thesis
  proof (cases "cell Sum64 sk k1 i = cell Sum64 sk k i")
    case True
    hence "counters sk' ! i ! cell Sum64 sk k i
        = capped_add (counters sk ! i ! cell Sum64 sk k i) d"
      using row len by (simp add: bumped_row_def)
    thus ?thesis by (auto simp: unat_capped_add min_def)
  next
    case False
    hence ne: "k1 \<noteq> k" by auto
    have "counters sk' ! i ! cell Sum64 sk k i = counters sk ! i ! cell Sum64 sk k i"
      using row False by (simp add: bumped_row_def)
    thus ?thesis using ne by simp
  qed
qed

lemma Increment_all_cells:
  assumes "cms_wf sk"
  shows "\<exists>sk'. Increment_all Sum64 sk calls = Inr sk' \<and> cms_wf sk'
          \<and> width sk' = width sk \<and> depth sk' = depth sk \<and> seeds sk' = seeds sk
          \<and> (\<forall>i < unat (depth sk).
                min (unat (counters sk ! i ! cell Sum64 sk k i) + true_count k calls) (2 ^ 32 - 1)
                  \<le> unat (counters sk' ! i ! cell Sum64 sk k i))"
  using assms
proof (induction calls arbitrary: sk)
  case Nil
  then show ?case by (simp add: true_count_def)
next
  case (Cons c rest)
  obtain k1 d where c: "c = (k1, d)" by (cases c)
  from Increment_char[OF Cons.prems, of Sum64 k1 d] obtain sk1 r where
    inc: "Increment Sum64 sk k1 d = Inr (sk1, r)" and wf1: "cms_wf sk1"
    and same1: "width sk1 = width sk" "depth sk1 = depth sk" "seeds sk1 = seeds sk"
    by blast
  from Cons.IH[OF wf1] obtain sk' where
    run: "Increment_all Sum64 sk1 rest = Inr sk'" and wf': "cms_wf sk'"
    and same': "width sk' = width sk1" "depth sk' = depth sk1" "seeds sk' = seeds sk1"
    and cells: "\<forall>i < unat (depth sk1).
        min (unat (counters sk1 ! i ! cell Sum64 sk1 k i) + true_count k rest) (2 ^ 32 - 1)
          \<le> unat (counters sk' ! i ! cell Sum64 sk1 k i)"
    by blast
  have cc: "cell Sum64 sk1 k i = cell Sum64 sk k i" for i
    using same1 by (intro cell_cong) simp_all
  have tc: "true_count k (c # rest) = (if k1 = k then unat d else 0) + true_count k rest"
    by (simp add: true_count_def c)
  have "min (unat (counters sk ! i ! cell Sum64 sk k i) + true_count k (c # rest)) (2 ^ 32 - 1)
          \<le> unat (counters sk' ! i ! cell Sum64 sk k i)" if i: "i < unat (depth sk)" for i
  proof -
    have a: "min (unat (counters sk ! i ! cell Sum64 sk k i) + (if k1 = k then unat d else 0))
               (2 ^ 32 - 1) \<le> unat (counters sk1 ! i ! cell Sum64 sk k i)"
      using Increment_cell_ge[OF Cons.prems i inc] .
    have b: "min (unat (counters sk1 ! i ! cell Sum64 sk k i) + true_count k rest) (2 ^ 32 - 1)
          \<le> unat (counters sk' ! i ! cell Sum64 sk k i)"
      using cells i same1 cc by simp
    show ?thesis using a b unfolding tc by (simp add: min_def split: if_splits)
  qed
  then show ?case using inc run wf' same1 same' by (simp add: c)
qed

lemma unat_Min_ge:
  fixes f g :: "nat \<Rightarrow> u32"
  assumes "n \<noteq> 0" "\<forall>i<n. min (unat (g i) + t) m \<le> unat (f i)"
  shows "min (unat (Min (g ` {..<n})) + t) m \<le> unat (Min (f ` {..<n}))"
proof -
  have ne: "f ` {..<n} \<noteq> {}" using assms(1) by auto
  have "Min (f ` {..<n}) \<in> f ` {..<n}" using ne by (intro Min_in) simp_all
  then obtain i where i: "i < n" and eq: "Min (f ` {..<n}) = f i" by auto
  have "Min (g ` {..<n}) \<le> g i" using i by (intro Min_le) simp_all
  hence "unat (Min (g ` {..<n})) \<le> unat (g i)" by (simp add: word_le_nat_alt)
  hence "min (unat (Min (g ` {..<n})) + t) m \<le> min (unat (g i) + t) m" by (simp add: min_def)
  also have "\<dots> \<le> unat (f i)" using assms(2) i by simp
  finally show ?thesis using eq by simp
qed

lemma Increment_estimate:
  assumes "cms_wf sk"
  shows "\<exists>sk1 r. Increment Sum64 sk key delta = Inr (sk1, r) \<and> cms_wf sk1
            \<and> width sk1 = width sk \<and> depth sk1 = depth sk \<and> seeds sk1 = seeds sk
            \<and> Estimate Sum64 sk1 key = Inr r
            \<and> r = Min ((\<lambda>i. counters sk1 ! i ! cell Sum64 sk1 key i) ` {..<unat (depth sk1)})"
proof -
  from Increment_char[OF assms, of Sum64 key delta] obtain sk1 where
    inc: "Increment Sum64 sk key delta
            = Inr (sk1, Min ((\<lambda>i. capped_add (counters sk ! i ! cell Sum64 sk key i) delta)
                               ` {..<unat (depth sk)}))"
    and wf1: "cms_wf sk1"
    and same: "width sk1 = width sk" "depth sk1 = depth sk" "seeds sk1 = seeds sk"
    and rows: "\<forall>i < unat (depth sk). counters sk1 ! i = bumped_row Sum64 sk key delta i"
    by blast
  have w0: "width sk \<noteq> 0" using assms by (simp add: cms_wf_def)
  have cc: "cell Sum64 sk1 key i = cell Sum64 sk key i" for i
    using same by (intro cell_cong) simp_all
  have new: "counters sk1 ! i ! cell Sum64 sk key i
      = capped_add (counters sk ! i ! cell Sum64 sk key i) delta" if "i < unat (depth sk)" for i
    using rows that cell_less[OF w0, of Sum64 key i] cms_wf_row[OF assms that]
    by (simp add: bumped_row_def)
  have img: "(\<lambda>i. counters sk1 ! i ! cell Sum64 sk1 key i) ` {..<unat (depth sk1)}
      = (\<lambda>i. capped_add (counters sk ! i ! cell Sum64 sk key i) delta) ` {..<unat (depth sk)}"
    unfolding same using new cc by (intro image_cong) simp_all
  show ?thesis
    using inc img wf1 same by (simp add: Estimate_char[OF wf1])
qed

text \<open>
  C8. For every key and delta, on a well-formed sketch, \<open>Increment\<close> returns (it does not
  panic); each of the \<open>depth\<close> cells selected by \<open>hash\<close> becomes
  \<open>min(oldValue + delta, 2^32 - 1)\<close>, so it saturates instead of wrapping; and the value
  returned is the minimum of the new values of those cells.
\<close>

theorem Increment_saturates:
  assumes "cms_wf sk"
  shows "\<exists>sk' r. Increment Sum64 sk key delta = Inr (sk', r)
          \<and> (\<forall>i < unat (depth sk).
                hash Sum64 sk key (seeds sk ! i) = Inr (word_of_nat (cell Sum64 sk key i))
              \<and> unat (counters sk' ! i ! cell Sum64 sk key i)
                  = min (unat (counters sk ! i ! cell Sum64 sk key i) + unat delta) (2 ^ 32 - 1))
          \<and> r = Min ((\<lambda>i. counters sk' ! i ! cell Sum64 sk key i) ` {..<unat (depth sk)})"
proof -
  from Increment_char[OF assms, of Sum64 key delta] obtain sk' where
    inc: "Increment Sum64 sk key delta
            = Inr (sk', Min ((\<lambda>i. capped_add (counters sk ! i ! cell Sum64 sk key i) delta)
                               ` {..<unat (depth sk)}))"
    and rows: "\<forall>i < unat (depth sk). counters sk' ! i = bumped_row Sum64 sk key delta i"
    by blast
  have w0: "width sk \<noteq> 0" using assms by (simp add: cms_wf_def)
  have new: "counters sk' ! i ! cell Sum64 sk key i
      = capped_add (counters sk ! i ! cell Sum64 sk key i) delta" if "i < unat (depth sk)" for i
    using rows that cell_less[OF w0, of Sum64 key i] cms_wf_row[OF assms that]
    by (simp add: bumped_row_def)
  have h: "hash Sum64 sk key (seeds sk ! i) = Inr (word_of_nat (cell Sum64 sk key i))" for i
  proof -
    from hash_cell[OF w0, of Sum64 key i] obtain idx where
      "hash Sum64 sk key (seeds sk ! i) = Inr idx" "unat idx = cell Sum64 sk key i" by blast
    moreover have "word_of_nat (unat idx) = idx" by simp
    ultimately show ?thesis by metis
  qed
  have img: "(\<lambda>i. counters sk' ! i ! cell Sum64 sk key i) ` {..<unat (depth sk)}
      = (\<lambda>i. capped_add (counters sk ! i ! cell Sum64 sk key i) delta) ` {..<unat (depth sk)}"
    using new by (intro image_cong) simp_all
  show ?thesis using inc new h img by (simp add: unat_capped_add)
qed

theorem Increment_saturates_witness:
  "cms_wf (NewCountMinSketch 0 2)
   \<and> (\<exists>sk' r. Increment zero_hash (NewCountMinSketch 0 2) ''k'' 7 = Inr (sk', r)
        \<and> (\<forall>i < unat (depth (NewCountMinSketch 0 2)).
              hash zero_hash (NewCountMinSketch 0 2) ''k'' (seeds (NewCountMinSketch 0 2) ! i)
                = Inr (word_of_nat (cell zero_hash (NewCountMinSketch 0 2) ''k'' i))
            \<and> unat (counters sk' ! i ! cell zero_hash (NewCountMinSketch 0 2) ''k'' i)
                = min (unat (counters (NewCountMinSketch 0 2) ! i
                               ! cell zero_hash (NewCountMinSketch 0 2) ''k'' i) + unat (7::u32))
                      (2 ^ 32 - 1))
        \<and> r = Min ((\<lambda>i. counters sk' ! i ! cell zero_hash (NewCountMinSketch 0 2) ''k'' i)
                       ` {..<unat (depth (NewCountMinSketch 0 2))}))
   \<and> (case Increment zero_hash (NewCountMinSketch 0 2) ''k'' 7 of
         Inl e \<Rightarrow> Inl e | Inr (sk', r) \<Rightarrow> Inr r) = Inr 7"
proof -
  have wf: "cms_wf (NewCountMinSketch 0 2)" by code_simp
  have ev: "(case Increment zero_hash (NewCountMinSketch 0 2) ''k'' 7 of
         Inl e \<Rightarrow> Inl e | Inr (sk', r) \<Rightarrow> Inr r) = (Inr 7 :: panic + u32)" by code_simp
  show ?thesis
    using Increment_saturates[OF wf, of zero_hash "''k''" 7] wf ev by blast
qed

text \<open>
  C3, as amended. For every key \<open>k\<close> and every sequence of \<open>Increment\<close> calls on a
  well-formed sketch, with no \<open>Decay\<close> or \<open>Reset\<close> between them, every call returns, and
  afterwards \<open>Estimate(k)\<close> is at least the smaller of \<open>2^32 - 1\<close> and the estimate before
  the sequence plus the sum of the deltas of the calls for \<open>k\<close>: the sketch does not
  under-count below the counter maximum. The value returned by one \<open>Increment\<close> is the
  minimum over the \<open>depth\<close> updated cells, which is the new estimate of its key.
\<close>

theorem Estimate_lower_bound:
  assumes "cms_wf sk"
  shows "(\<exists>sk' e0 e. Increment_all Sum64 sk calls = Inr sk'
            \<and> Estimate Sum64 sk k = Inr e0 \<and> Estimate Sum64 sk' k = Inr e
            \<and> min (unat e0 + true_count k calls) (2 ^ 32 - 1) \<le> unat e)
       \<and> (\<exists>sk1 r. Increment Sum64 sk key delta = Inr (sk1, r)
            \<and> Estimate Sum64 sk1 key = Inr r
            \<and> r = Min ((\<lambda>i. counters sk1 ! i ! cell Sum64 sk1 key i) ` {..<unat (depth sk1)}))"
proof
  from Increment_all_cells[OF assms, of Sum64 calls k] obtain sk' where
    run: "Increment_all Sum64 sk calls = Inr sk'" and wf': "cms_wf sk'"
    and same: "width sk' = width sk" "depth sk' = depth sk" "seeds sk' = seeds sk"
    and cells: "\<forall>i < unat (depth sk).
        min (unat (counters sk ! i ! cell Sum64 sk k i) + true_count k calls) (2 ^ 32 - 1)
          \<le> unat (counters sk' ! i ! cell Sum64 sk k i)"
    by blast
  have n0: "unat (depth sk) \<noteq> 0" using assms by (simp add: cms_wf_def unat_eq_zero)
  have cc: "cell Sum64 sk' k i = cell Sum64 sk k i" for i
    using same by (intro cell_cong) simp_all
  have "min (unat (Min ((\<lambda>i. counters sk ! i ! cell Sum64 sk k i) ` {..<unat (depth sk)}))
              + true_count k calls) (2 ^ 32 - 1)
        \<le> unat (Min ((\<lambda>i. counters sk' ! i ! cell Sum64 sk k i) ` {..<unat (depth sk)}))"
    using n0 cells by (rule unat_Min_ge)
  thus "\<exists>sk' e0 e. Increment_all Sum64 sk calls = Inr sk'
            \<and> Estimate Sum64 sk k = Inr e0 \<and> Estimate Sum64 sk' k = Inr e
            \<and> min (unat e0 + true_count k calls) (2 ^ 32 - 1) \<le> unat e"
    using run by (simp add: Estimate_char[OF assms] Estimate_char[OF wf'] cc same)
next
  from Increment_estimate[OF assms, of Sum64 key delta]
  show "\<exists>sk1 r. Increment Sum64 sk key delta = Inr (sk1, r)
            \<and> Estimate Sum64 sk1 key = Inr r
            \<and> r = Min ((\<lambda>i. counters sk1 ! i ! cell Sum64 sk1 key i) ` {..<unat (depth sk1)})"
    by blast
qed

theorem Estimate_lower_bound_witness:
  "cms_wf (NewCountMinSketch 0 2)
   \<and> (\<exists>sk' e0 e.
        Increment_all zero_hash (NewCountMinSketch 0 2) [(''a'', 3), (''b'', 4), (''a'', 5)] = Inr sk'
        \<and> Estimate zero_hash (NewCountMinSketch 0 2) ''a'' = Inr e0
        \<and> Estimate zero_hash sk' ''a'' = Inr e
        \<and> min (unat e0 + true_count ''a'' [(''a'', 3), (''b'', 4), (''a'', 5)]) (2 ^ 32 - 1) \<le> unat e)
   \<and> true_count ''a'' [(''a'', 3), (''b'', 4), (''a'', 5)] = 8
   \<and> Estimate_after zero_hash (NewCountMinSketch 0 2) [(''a'', 3), (''b'', 4), (''a'', 5)] ''a''
        = Inr 12"
proof -
  have wf: "cms_wf (NewCountMinSketch 0 2)" by code_simp
  have ev: "Estimate_after zero_hash (NewCountMinSketch 0 2) [(''a'', 3), (''b'', 4), (''a'', 5)] ''a''
        = Inr 12" by code_simp
  have tc: "true_count ''a'' [(''a'', 3), (''b'', 4), (''a'', 5)] = 8" by (simp add: true_count_def)
  show ?thesis
    using Estimate_lower_bound[OF wf, of zero_hash "[(''a'', 3), (''b'', 4), (''a'', 5)]" "''a''"]
      wf ev tc by blast
qed

text \<open>
  Whatever the hash function and the size of the sketch, two increments of one key by
  \<open>2^32 - 1\<close> leave an estimate below the sum of the two deltas.
\<close>

lemma Estimate_saturated_any_hash:
  "\<exists>e. Estimate_after Sum64 (NewCountMinSketch memoryBytes d)
            [(k, 0xFFFFFFFF), (k, 0xFFFFFFFF)] k = Inr e
       \<and> unat e < true_count k [(k, 0xFFFFFFFF), (k, 0xFFFFFFFF)]"
proof -
  from Increment_all_cells[OF NewCountMinSketch_wf,
      of Sum64 memoryBytes d "[(k, 0xFFFFFFFF), (k, 0xFFFFFFFF)]" k]
  obtain sk' where run: "Increment_all Sum64 (NewCountMinSketch memoryBytes d)
      [(k, 0xFFFFFFFF), (k, 0xFFFFFFFF)] = Inr sk'" and wf': "cms_wf sk'" by blast
  let ?e = "Min ((\<lambda>i. counters sk' ! i ! cell Sum64 sk' k i) ` {..<unat (depth sk')})"
  have est: "Estimate Sum64 sk' k = Inr ?e" using wf' by (rule Estimate_char)
  have "unat ?e < 2 ^ 32" using unsigned_less[of ?e, where 'a = nat] by simp
  moreover have "true_count k [(k, 0xFFFFFFFF), (k, 0xFFFFFFFF)] = 8589934590"
    by (simp add: true_count_def)
  ultimately have "unat ?e < true_count k [(k, 0xFFFFFFFF), (k, 0xFFFFFFFF)]" by simp
  thus ?thesis using run est by (simp add: Estimate_after_def)
qed

text \<open>
  C3 as stated fails once the counters saturate: after two increments of one key by
  \<open>2^32 - 1\<close> on a new sketch the estimate is \<open>2^32 - 1\<close>, below the sum \<open>2^33 - 2\<close> of
  the deltas.
\<close>

theorem Estimate_undercounts_when_saturated:
  "Estimate_after zero_hash (NewCountMinSketch 0 2)
       [(''k'', 0xFFFFFFFF), (''k'', 0xFFFFFFFF)] ''k'' = Inr 0xFFFFFFFF
   \<and> true_count ''k'' [(''k'', 0xFFFFFFFF), (''k'', 0xFFFFFFFF)] = 8589934590
   \<and> \<not> (true_count ''k'' [(''k'', 0xFFFFFFFF), (''k'', 0xFFFFFFFF)] \<le> unat (0xFFFFFFFF :: u32))"
proof -
  have "Estimate_after zero_hash (NewCountMinSketch 0 2)
       [(''k'', 0xFFFFFFFF), (''k'', 0xFFFFFFFF)] ''k'' = Inr 0xFFFFFFFF" by code_simp
  moreover have "true_count ''k'' [(''k'', 0xFFFFFFFF), (''k'', 0xFFFFFFFF)] = 8589934590"
    by (simp add: true_count_def)
  ultimately show ?thesis by simp
qed

section \<open>Hot-key batcher: proofs\<close>

subsection \<open>The reverse walk\<close>

lemma reverse_walk_length: "length (reverse_walk n ws r res) = length res"
  by (induction n arbitrary: r res) simp_all

lemma reverse_walk_nth:
  assumes "n \<le> length ws" "length res = length ws" "i < length ws"
  shows "reverse_walk n ws r res ! i =
           (if i < n then r - sum_list (map hitsAddend (drop (Suc i) (take n ws))) else res ! i)"
  using assms
proof (induction n arbitrary: r res)
  case 0
  then show ?case by simp
next
  case (Suc n)
  have n: "n < length ws" using Suc.prems by simp
  have tk: "take (Suc n) ws = take n ws @ [ws ! n]" using n by (simp add: take_Suc_conv_app_nth)
  have IH: "reverse_walk n ws (r - hitsAddend (ws ! n)) (res[n := r]) ! i =
      (if i < n then (r - hitsAddend (ws ! n)) - sum_list (map hitsAddend (drop (Suc i) (take n ws)))
       else res[n := r] ! i)"
    using Suc.IH[of "res[n := r]" "r - hitsAddend (ws ! n)"] Suc.prems by simp
  show ?case
  proof (cases "i < n")
    case True
    hence "drop (Suc i) (take (Suc n) ws) = drop (Suc i) (take n ws) @ [ws ! n]"
      using n by (simp add: tk)
    thus ?thesis using IH True by simp
  next
    case False
    show ?thesis
    proof (cases "i = n")
      case True
      thus ?thesis using IH n Suc.prems by simp
    next
      case False
      with \<open>\<not> i < n\<close> have "n < i" by simp
      thus ?thesis using IH by simp
    qed
  qed
qed

lemma waiter_results_length: "length (waiter_results finalCount ws) = length ws"
  by (simp add: waiter_results_def reverse_walk_length)

lemma waiter_results_nth:
  "i < length ws \<Longrightarrow>
   waiter_results finalCount ws ! i = finalCount - sum_list (map hitsAddend (drop (Suc i) ws))"
  by (simp add: waiter_results_def reverse_walk_nth)

subsection \<open>The flush pipeline and its replies\<close>

lemma flush_build_cmds: "flush_build tf pipeline = pipeline @ flush_cmds tf"
  by (induction tf arbitrary: pipeline) (auto simp: flush_cmds_def PipeAppend_def)

lemma flush_cmds_length: "length (flush_cmds tf) = 2 * length tf"
  by (induction tf) (auto simp: flush_cmds_def)

lemma flush_cmds_nth:
  "p < length tf \<Longrightarrow>
   flush_cmds tf ! (2 * p) = (Some (fst (tf ! p)), INCRBY (fst (tf ! p)) (totalHits (snd (tf ! p))))"
proof (induction tf arbitrary: p)
  case Nil
  then show ?case by simp
next
  case (Cons x tf)
  obtain k a where x: "x = (k, a)" by (cases x)
  have c: "flush_cmds (x # tf) = (Some k, INCRBY k (totalHits a)) # (None, EXPIRE k (expirationSeconds a)) # flush_cmds tf"
    by (simp add: flush_cmds_def x)
  show ?case
  proof (cases p)
    case 0
    then show ?thesis using c by (simp add: x)
  next
    case (Suc q)
    then show ?thesis using Cons.IH[of q] Cons.prems by (simp add: c)
  qed
qed

lemma write_replies_other:
  "k \<notin> fst ` set tf \<Longrightarrow> write_replies (flush_cmds tf) vs mem k = mem k"
proof (induction tf arbitrary: vs mem)
  case Nil
  then show ?case by (simp add: flush_cmds_def)
next
  case (Cons x tf)
  obtain k0 a where x: "x = (k0, a)" by (cases x)
  have c: "flush_cmds (x # tf) = (Some k0, INCRBY k0 (totalHits a)) # (None, EXPIRE k0 (expirationSeconds a)) # flush_cmds tf"
    by (simp add: flush_cmds_def x)
  from Cons.prems have ne: "k \<noteq> k0" and notin: "k \<notin> fst ` set tf" by (auto simp: x)
  show ?case
  proof (cases vs)
    case Nil
    then show ?thesis by (simp add: c)
  next
    case (Cons v0 vs1)
    note vs = this
    show ?thesis
    proof (cases vs1)
      case Nil
      then show ?thesis using ne by (simp add: c vs)
    next
      case (Cons v1 vs2)
      then show ?thesis using ne Cons.IH[OF notin] by (simp add: c vs)
    qed
  qed
qed

lemma write_replies_flush:
  assumes "distinct (map fst tf)" "length vs = 2 * length tf" "p < length tf"
  shows "write_replies (flush_cmds tf) vs mem (fst (tf ! p)) = vs ! (2 * p)"
  using assms
proof (induction tf arbitrary: vs mem p)
  case Nil
  then show ?case by simp
next
  case (Cons x tf)
  obtain k0 a where x: "x = (k0, a)" by (cases x)
  have c: "flush_cmds (x # tf) = (Some k0, INCRBY k0 (totalHits a)) # (None, EXPIRE k0 (expirationSeconds a)) # flush_cmds tf"
    by (simp add: flush_cmds_def x)
  from Cons.prems obtain v0 v1 vs2 where vs: "vs = v0 # v1 # vs2" and len: "length vs2 = 2 * length tf"
    by (cases vs; cases "tl vs") auto
  from Cons.prems have d: "distinct (map fst tf)" and notin: "k0 \<notin> fst ` set tf" by (auto simp: x)
  have w: "write_replies (flush_cmds (x # tf)) (v0 # v1 # vs2) mem
      = write_replies (flush_cmds tf) vs2 (mem(k0 := v0))"
    by (simp add: c)
  show ?case
  proof (cases p)
    case 0
    then show ?thesis using write_replies_other[OF notin] by (simp add: w[unfolded x] x vs)
  next
    case (Suc q)
    hence "q < length tf" using Cons.prems by simp
    from Cons.IH[OF d len this] show ?thesis by (simp add: w Suc vs)
  qed
qed

lemma zip_waiter_results:
  "map (\<lambda>(w, v). (resultChan w, \<lparr>Value = v, Err = None\<rparr>)) (zip ws (waiter_results f ws))
     = map (\<lambda>i. (resultChan (ws ! i),
                   \<lparr>Value = f - sum_list (map hitsAddend (drop (Suc i) ws)), Err = None\<rparr>))
         [0..<length ws]"
  by (rule nth_equalityI) (simp_all add: waiter_results_length waiter_results_nth)

lemma flush_distribute_ok:
  "flush_distribute None results tf = concat (map (sends_ok results) tf)"
  by (induction tf) (auto simp: sends_ok_def zip_waiter_results)

lemma flush_distribute_err:
  "flush_distribute (Some e) results tf
     = concat (map (\<lambda>ka. map (\<lambda>w. (resultChan w, \<lparr>Value = 0, Err = Some e\<rparr>)) (waiters (snd ka))) tf)"
  by (induction tf) auto

lemma concat_nth_offset:
  "p < length xss \<Longrightarrow> i < length (xss ! p) \<Longrightarrow>
   concat xss ! (sum_list (map length (take p xss)) + i) = xss ! p ! i"
proof (induction xss arbitrary: p)
  case Nil
  then show ?case by simp
next
  case (Cons xs xss)
  show ?case
  proof (cases p)
    case 0
    then show ?thesis using Cons.prems by (simp add: nth_append)
  next
    case (Suc q)
    then show ?thesis using Cons.prems Cons.IH[of q] by (simp add: nth_append add.assoc)
  qed
qed

lemma sends_ok_length: "length (sends_ok results ka) = length (waiters (snd ka))"
  by (simp add: sends_ok_def)

lemma flush_sent_ok:
  assumes "pending b \<noteq> []" "pipeDo (map snd (flush_build (pending b) [])) = Inr vs"
  shows "sent (flush pipeDo b)
           = concat (map (sends_ok (write_replies (flush_cmds (pending b)) vs (\<lambda>k. 0))) (pending b))"
  using assms by (simp add: flush_def Let_def flush_distribute_ok flush_build_cmds)

lemma unat_sum_list_u64:
  "unat (sum_list (map f xs) :: u64) = sum_list (map (\<lambda>x. unat (f x)) xs) mod 2 ^ 64"
proof (induction xs)
  case Nil
  then show ?case by simp
next
  case (Cons x xs)
  have "unat (f x + sum_list (map f xs)) = (unat (f x) + unat (sum_list (map f xs))) mod 2 ^ 64"
    by (simp add: unat_word_ariths)
  also have "\<dots> = (unat (f x) + sum_list (map (\<lambda>x. unat (f x)) xs) mod 2 ^ 64) mod 2 ^ 64"
    using Cons.IH by simp
  also have "\<dots> = (unat (f x) + sum_list (map (\<lambda>x. unat (f x)) xs)) mod 2 ^ 64"
    by (rule mod_add_right_eq)
  finally show ?case by simp
qed

lemma unat_minus_sum_list:
  fixes a :: u64
  assumes "sum_list (map (\<lambda>x. unat (f x)) xs) \<le> unat a"
  shows "unat (a - sum_list (map f xs)) = unat a - sum_list (map (\<lambda>x. unat (f x)) xs)"
proof -
  have "unat a < 2 ^ 64" using unsigned_less[of a, where 'a = nat] by simp
  hence "sum_list (map (\<lambda>x. unat (f x)) xs) < 2 ^ 64" using assms by simp
  hence u: "unat (sum_list (map f xs)) = sum_list (map (\<lambda>x. unat (f x)) xs)"
    by (simp add: unat_sum_list_u64)
  hence "sum_list (map f xs) \<le> a" using assms by (simp add: word_le_nat_alt)
  hence "unat (a - sum_list (map f xs)) = unat a - unat (sum_list (map f xs))"
    by (rule unat_sub)
  thus ?thesis using u by simp
qed

text \<open>
  C1. For every batch flush whose pipeline succeeds with one reply per command: the store
  increment of the key at position \<open>p\<close> of the batch is command \<open>2p\<close>, and its reply
  \<open>vs ! (2p)\<close> is \<open>finalCount\<close>; there is one send per waiter; waiter \<open>i\<close> of that key is
  sent, on its own channel, the value \<open>finalCount - (w_{i+1}.hitsAddend + ... + w_{n-1}.hitsAddend)\<close>
  with a nil error; and when the entry's \<open>totalHits\<close> is the sum of its waiters' hits and
  the counter held \<open>v\<close> before the flush (\<open>finalCount = v + totalHits\<close>), that value is
  \<open>v\<close> plus the sum of \<open>w_j.hitsAddend\<close> for \<open>j \<le> i\<close>. Arithmetic is that of \<open>uint64\<close>;
  where the hits of the later waiters do not exceed \<open>finalCount\<close>, the difference is also
  the difference of the numbers.
\<close>

theorem flush_waiter_values:
  assumes dist: "distinct (map fst (pending b))"
    and reply: "pipeDo (map snd (flush_build (pending b) [])) = Inr vs"
    and len: "length vs = 2 * length (pending b)"
    and p: "p < length (pending b)" and ka: "pending b ! p = (key, agg)"
    and i: "i < length (waiters agg)"
  shows "map snd (flush_build (pending b) []) ! (2 * p) = INCRBY key (totalHits agg)
       \<and> length (sent (flush pipeDo b))
           = sum_list (map (\<lambda>ka. length (waiters (snd ka))) (pending b))
       \<and> sent (flush pipeDo b)
             ! (sum_list (map (\<lambda>ka. length (waiters (snd ka))) (take p (pending b))) + i)
           = (resultChan (waiters agg ! i),
              \<lparr>Value = vs ! (2 * p) - sum_list (map hitsAddend (drop (Suc i) (waiters agg))),
               Err = None\<rparr>)
       \<and> (totalHits agg = sum_list (map hitsAddend (waiters agg)) \<and> vs ! (2 * p) = v + totalHits agg
            \<longrightarrow> vs ! (2 * p) - sum_list (map hitsAddend (drop (Suc i) (waiters agg)))
                = v + sum_list (map hitsAddend (take (Suc i) (waiters agg))))
       \<and> (sum_list (map (\<lambda>w. unat (hitsAddend w)) (drop (Suc i) (waiters agg))) \<le> unat (vs ! (2 * p))
            \<longrightarrow> unat (vs ! (2 * p) - sum_list (map hitsAddend (drop (Suc i) (waiters agg))))
                = unat (vs ! (2 * p))
                  - sum_list (map (\<lambda>w. unat (hitsAddend w)) (drop (Suc i) (waiters agg))))"
proof -
  let ?tf = "pending b"
  let ?results = "write_replies (flush_cmds ?tf) vs (\<lambda>k. 0)"
  let ?xss = "map (sends_ok ?results) ?tf"
  have ne: "?tf \<noteq> []" using p by auto
  have cmd: "map snd (flush_build ?tf []) ! (2 * p) = INCRBY key (totalHits agg)"
    using p ka flush_cmds_nth[OF p] by (simp add: flush_build_cmds flush_cmds_length)
  have s: "sent (flush pipeDo b) = concat ?xss" using ne reply by (rule flush_sent_ok)
  have lens: "map length ?xss = map (\<lambda>ka. length (waiters (snd ka))) ?tf"
    by (simp add: sends_ok_length)
  have total: "length (sent (flush pipeDo b)) = sum_list (map (\<lambda>ka. length (waiters (snd ka))) ?tf)"
    unfolding s length_concat lens ..
  have fc: "?results key = vs ! (2 * p)"
    using write_replies_flush[OF dist len p, of "\<lambda>k. 0"] ka by simp
  have xp: "?xss ! p = sends_ok ?results (key, agg)" using p ka by simp
  have ip: "i < length (?xss ! p)" using i xp by (simp add: sends_ok_length)
  have "concat ?xss ! (sum_list (map length (take p ?xss)) + i) = ?xss ! p ! i"
    using p ip by (intro concat_nth_offset) simp_all
  moreover have "map length (take p ?xss) = map (\<lambda>ka. length (waiters (snd ka))) (take p ?tf)"
    by (simp add: take_map sends_ok_length)
  moreover have "?xss ! p ! i = (resultChan (waiters agg ! i),
      \<lparr>Value = vs ! (2 * p) - sum_list (map hitsAddend (drop (Suc i) (waiters agg))), Err = None\<rparr>)"
    using i fc by (simp add: xp sends_ok_def)
  ultimately have nth: "sent (flush pipeDo b)
             ! (sum_list (map (\<lambda>ka. length (waiters (snd ka))) (take p ?tf)) + i)
           = (resultChan (waiters agg ! i),
              \<lparr>Value = vs ! (2 * p) - sum_list (map hitsAddend (drop (Suc i) (waiters agg))),
               Err = None\<rparr>)"
    using s by simp
  have split: "sum_list (map hitsAddend (waiters agg))
      = sum_list (map hitsAddend (take (Suc i) (waiters agg)))
        + sum_list (map hitsAddend (drop (Suc i) (waiters agg)))"
    by (metis append_take_drop_id map_append sum_list_append)
  have alt: "vs ! (2 * p) - sum_list (map hitsAddend (drop (Suc i) (waiters agg)))
        = v + sum_list (map hitsAddend (take (Suc i) (waiters agg)))"
    if "totalHits agg = sum_list (map hitsAddend (waiters agg))" "vs ! (2 * p) = v + totalHits agg"
    using that split by simp
  have num: "unat (vs ! (2 * p) - sum_list (map hitsAddend (drop (Suc i) (waiters agg))))
                = unat (vs ! (2 * p))
                  - sum_list (map (\<lambda>w. unat (hitsAddend w)) (drop (Suc i) (waiters agg)))"
    if "sum_list (map (\<lambda>w. unat (hitsAddend w)) (drop (Suc i) (waiters agg))) \<le> unat (vs ! (2 * p))"
    using that by (rule unat_minus_sum_list)
  show ?thesis using cmd total nth alt num by blast
qed

theorem flush_waiter_values_witness:
  "sent (flush (counter_store 50)
          (fst (Submit_all \<lparr>pending = [], chansMade = 0\<rparr> [(''K'', 2, 1), (''K'', 3, 1), (''K'', 1, 1)])))
     = [(0, \<lparr>Value = 52, Err = None\<rparr>), (1, \<lparr>Value = 55, Err = None\<rparr>),
        (2, \<lparr>Value = 56, Err = None\<rparr>)]
   \<and> sent (flush (counter_store 50)
          (fst (Submit_all \<lparr>pending = [], chansMade = 0\<rparr> [(''K'', 2, 1), (''K'', 3, 1), (''K'', 1, 1)])))
        ! 1
     = (1, \<lparr>Value = 56 - sum_list (map hitsAddend [\<lparr>hitsAddend = 1, resultChan = 2\<rparr>]), Err = None\<rparr>)
   \<and> (56 :: u64) - sum_list (map hitsAddend [\<lparr>hitsAddend = 1, resultChan = 2\<rparr>])
     = 50 + sum_list (map hitsAddend [\<lparr>hitsAddend = 2, resultChan = 0\<rparr>, \<lparr>hitsAddend = 3, resultChan = 1\<rparr>])"
proof -
  define b where
    "b = fst (Submit_all \<lparr>pending = [], chansMade = 0\<rparr> [(''K'', 2, 1), (''K'', 3, 1), (''K'', 1, 1)])"
  let ?ws = "[\<lparr>hitsAddend = 2, resultChan = 0\<rparr>, \<lparr>hitsAddend = 3, resultChan = 1\<rparr>,
              \<lparr>hitsAddend = 1, resultChan = 2\<rparr>]"
  let ?agg = "\<lparr>totalHits = 6, expirationSeconds = 1, waiters = ?ws\<rparr>"
  have pb: "pending b = [(''K'', ?agg)]" unfolding b_def by code_simp
  have h1: "distinct (map fst (pending b))" by (simp add: pb)
  have h2: "counter_store 50 (map snd (flush_build (pending b) [])) = Inr [56, 1]"
    unfolding pb by code_simp
  have h3: "length [56, 1 :: u64] = 2 * length (pending b)" by (simp add: pb)
  have h4: "0 < length (pending b)" by (simp add: pb)
  have h5: "pending b ! 0 = (''K'', ?agg)" by (simp add: pb)
  have h6: "1 < length (waiters ?agg)" by simp
  have ev: "sent (flush (counter_store 50) b)
     = [(0, \<lparr>Value = 52, Err = None\<rparr>), (1, \<lparr>Value = 55, Err = None\<rparr>),
        (2, \<lparr>Value = 56, Err = None\<rparr>)]" unfolding b_def by code_simp
  from flush_waiter_values[where pipeDo = "counter_store 50" and b = b and v = 50,
      OF h1 h2 h3 h4 h5 h6]
  have "sent (flush (counter_store 50) b) ! 1
      = (1, \<lparr>Value = 56 - sum_list (map hitsAddend [\<lparr>hitsAddend = 1, resultChan = 2\<rparr>]), Err = None\<rparr>)
    \<and> (56 :: u64) - sum_list (map hitsAddend [\<lparr>hitsAddend = 1, resultChan = 2\<rparr>])
      = 50 + sum_list (map hitsAddend [\<lparr>hitsAddend = 2, resultChan = 0\<rparr>, \<lparr>hitsAddend = 3, resultChan = 1\<rparr>])"
    by simp
  thus ?thesis using ev unfolding b_def by blast
qed

text \<open>
  C6. For every batch flush whose pipeline execution returns an error: every send carries
  that error and the zero value, every waiter of every key of the batch is sent it, the
  driver was called exactly once (no retry), and the batch is not put back into
  \<open>pending\<close>.
\<close>

theorem flush_error_to_all_waiters:
  assumes ne: "pending b \<noteq> []"
    and reply: "pipeDo (map snd (flush_build (pending b) [])) = Inl e"
  shows "sent (flush pipeDo b)
           = concat (map (\<lambda>ka. map (\<lambda>w. (resultChan w, \<lparr>Value = 0, Err = Some e\<rparr>))
                                   (waiters (snd ka))) (pending b))
       \<and> (\<forall>ka \<in> set (pending b). \<forall>w \<in> set (waiters (snd ka)).
             (resultChan w, \<lparr>Value = 0, Err = Some e\<rparr>) \<in> set (sent (flush pipeDo b)))
       \<and> (\<forall>m \<in> set (sent (flush pipeDo b)). Err (snd m) = Some e)
       \<and> pipeDoCalls (flush pipeDo b) = [map snd (flush_build (pending b) [])]
       \<and> pending (batcher (flush pipeDo b)) = []"
proof -
  have s: "sent (flush pipeDo b)
           = concat (map (\<lambda>ka. map (\<lambda>w. (resultChan w, \<lparr>Value = 0, Err = Some e\<rparr>))
                                   (waiters (snd ka))) (pending b))"
    using ne reply by (simp add: flush_def Let_def flush_distribute_err)
  have calls: "pipeDoCalls (flush pipeDo b) = [map snd (flush_build (pending b) [])]"
    and emptied: "pending (batcher (flush pipeDo b)) = []"
    using ne reply by (simp_all add: flush_def Let_def)
  have all: "\<forall>ka \<in> set (pending b). \<forall>w \<in> set (waiters (snd ka)).
             (resultChan w, \<lparr>Value = 0, Err = Some e\<rparr>) \<in> set (sent (flush pipeDo b))"
    unfolding s by auto
  have only: "\<forall>m \<in> set (sent (flush pipeDo b)). Err (snd m) = Some e"
    unfolding s by auto
  show ?thesis using s calls emptied all only by blast
qed

theorem flush_error_to_all_waiters_witness:
  "pending (fst (Submit_all \<lparr>pending = [], chansMade = 0\<rparr> [(''K'', 2, 1), (''J'', 3, 1), (''K'', 1, 1)])) \<noteq> []
   \<and> sent (flush failing_store
          (fst (Submit_all \<lparr>pending = [], chansMade = 0\<rparr> [(''K'', 2, 1), (''J'', 3, 1), (''K'', 1, 1)])))
     = [(0, \<lparr>Value = 0, Err = Some ''connection refused''\<rparr>),
        (2, \<lparr>Value = 0, Err = Some ''connection refused''\<rparr>),
        (1, \<lparr>Value = 0, Err = Some ''connection refused''\<rparr>)]
   \<and> pipeDoCalls (flush failing_store
          (fst (Submit_all \<lparr>pending = [], chansMade = 0\<rparr> [(''K'', 2, 1), (''J'', 3, 1), (''K'', 1, 1)])))
     = [[INCRBY ''K'' 3, EXPIRE ''K'' 1, INCRBY ''J'' 3, EXPIRE ''J'' 1]]
   \<and> pending (batcher (flush failing_store
          (fst (Submit_all \<lparr>pending = [], chansMade = 0\<rparr> [(''K'', 2, 1), (''J'', 3, 1), (''K'', 1, 1)]))))
     = []"
proof -
  define b where
    "b = fst (Submit_all \<lparr>pending = [], chansMade = 0\<rparr> [(''K'', 2, 1), (''J'', 3, 1), (''K'', 1, 1)])"
  have pb: "pending b =
     [(''K'', \<lparr>totalHits = 3, expirationSeconds = 1,
               waiters = [\<lparr>hitsAddend = 2, resultChan = 0\<rparr>, \<lparr>hitsAddend = 1, resultChan = 2\<rparr>]\<rparr>),
      (''J'', \<lparr>totalHits = 3, expirationSeconds = 1,
               waiters = [\<lparr>hitsAddend = 3, resultChan = 1\<rparr>]\<rparr>)]" unfolding b_def by code_simp
  have h1: "pending b \<noteq> []" by (simp add: pb)
  have h2: "failing_store (map snd (flush_build (pending b) [])) = Inl ''connection refused''"
    by (simp add: failing_store_def)
  from flush_error_to_all_waiters[where pipeDo = failing_store and b = b, OF h1 h2]
  have "sent (flush failing_store b)
     = [(0, \<lparr>Value = 0, Err = Some ''connection refused''\<rparr>),
        (2, \<lparr>Value = 0, Err = Some ''connection refused''\<rparr>),
        (1, \<lparr>Value = 0, Err = Some ''connection refused''\<rparr>)]
   \<and> pipeDoCalls (flush failing_store b)
     = [[INCRBY ''K'' 3, EXPIRE ''K'' 1, INCRBY ''J'' 3, EXPIRE ''J'' 1]]
   \<and> pending (batcher (flush failing_store b)) = []"
    by (simp add: pb PipeAppend_def)
  thus ?thesis using h1 unfolding b_def by blast
qed

subsection \<open>Submit\<close>

lemma Submit_pending:
  "map_of (pending (fst (Submit b key hits ttl))) =
     (map_of (pending b))(key \<mapsto>
        (case map_of (pending b) key of
           None \<Rightarrow> \<lparr>totalHits = hits, expirationSeconds = ttl,
                     waiters = [\<lparr>hitsAddend = hits, resultChan = chansMade b\<rparr>]\<rparr>
         | Some a \<Rightarrow> \<lparr>totalHits = totalHits a + hits,
                      expirationSeconds = max (expirationSeconds a) ttl,
                      waiters = waiters a @ [\<lparr>hitsAddend = hits, resultChan = chansMade b\<rparr>]\<rparr>))"
  by (auto simp: Submit_def Let_def update_conv max_def split: option.splits)

lemma Submit_chan: "snd (Submit b key hits ttl) = chansMade b"
  "chansMade (fst (Submit b key hits ttl)) = Suc (chansMade b)"
  by (simp_all add: Submit_def Let_def)

lemma Submit_distinct:
  "distinct (map fst (pending b)) \<Longrightarrow> distinct (map fst (pending (fst (Submit b key hits ttl))))"
  by (simp add: Submit_def Let_def distinct_update)

lemma Submit_all_snoc:
  "Submit_all b (calls @ [(key, hits, ttl)]) =
     (case Submit_all b calls of
        (b1, chs) \<Rightarrow> (case Submit b1 key hits ttl of (b2, ch) \<Rightarrow> (b2, chs @ [ch])))"
proof (induction calls arbitrary: b)
  case Nil
  then show ?case by (simp split: prod.splits)
next
  case (Cons c calls)
  obtain k h t where c: "c = (k, h, t)" by (cases c)
  show ?case by (simp add: c Cons.IH split: prod.splits)
qed

lemma Submit_all_chans:
  "snd (Submit_all b calls) = [chansMade b ..< chansMade b + length calls]
   \<and> chansMade (fst (Submit_all b calls)) = chansMade b + length calls"
proof (induction calls arbitrary: b)
  case Nil
  then show ?case by simp
next
  case (Cons c calls)
  obtain k h t where c: "c = (k, h, t)" by (cases c)
  have 1: "snd (Submit b k h t) = chansMade b" "chansMade (fst (Submit b k h t)) = Suc (chansMade b)"
    by (rule Submit_chan)+
  obtain b1 ch where s1: "Submit b k h t = (b1, ch)" by (cases "Submit b k h t")
  obtain b2 chs where s2: "Submit_all b1 calls = (b2, chs)" by (cases "Submit_all b1 calls")
  from 1 s1 have ch: "ch = chansMade b" and b1: "chansMade b1 = Suc (chansMade b)" by simp_all
  from Cons.IH[of b1] s2 b1
  have chs: "chs = [Suc (chansMade b) ..< Suc (chansMade b) + length calls]"
    and b2: "chansMade b2 = Suc (chansMade b) + length calls" by simp_all
  have "[chansMade b ..< chansMade b + length (c # calls)]
      = chansMade b # [Suc (chansMade b) ..< Suc (chansMade b) + length calls]"
    by (simp add: upt_conv_Cons del: upt_Suc)
  thus ?case using ch chs b2 by (simp add: c s1 s2 del: upt_Suc)
qed

lemma entry_ok_step:
  assumes "entry_ok (pending b1) cs k"
  shows "entry_ok (pending (fst (Submit b1 key h t))) (cs @ [((key, h, t), chansMade b1)]) k"
proof (cases "k = key")
  case False
  then show ?thesis using assms by (simp add: entry_ok_def Let_def Submit_pending)
next
  case True
  let ?mine = "filter (\<lambda>c. fst (fst c) = key) cs"
  show ?thesis
  proof (cases "map_of (pending b1) key")
    case None
    hence "?mine = []" using assms True by (simp add: entry_ok_def Let_def)
    thus ?thesis using None True by (simp add: entry_ok_def Let_def Submit_pending)
  next
    case (Some a)
    hence a: "?mine \<noteq> []"
      "waiters a = map (\<lambda>c. \<lparr>hitsAddend = fst (snd (fst c)), resultChan = snd c\<rparr>) ?mine"
      "totalHits a = sum_list (map hitsAddend (waiters a))"
      "expirationSeconds a = Max (set (map (\<lambda>c. snd (snd (fst c))) ?mine))"
      using assms True by (simp_all add: entry_ok_def Let_def del: set_map set_filter)
    have ne: "{x \<in> set cs. fst (fst x) = key} \<noteq> {}"
      using a(1) unfolding filter_empty_conv by blast
    show ?thesis
      using Some True assms ne
      by (simp add: entry_ok_def Let_def Submit_pending max.commute)
  qed
qed

lemma Submit_all_invariant:
  assumes "pending b = []"
  shows "distinct (map fst (pending (fst (Submit_all b calls))))
       \<and> (\<forall>k. entry_ok (pending (fst (Submit_all b calls))) (zip calls (snd (Submit_all b calls))) k)"
proof (induction calls rule: rev_induct)
  case Nil
  then show ?case using assms by (simp add: entry_ok_def Let_def)
next
  case (snoc c calls)
  obtain key h t where c: "c = (key, h, t)" by (cases c)
  obtain b1 chs where s1: "Submit_all b calls = (b1, chs)" by (cases "Submit_all b calls")
  obtain b2 ch where s2: "Submit b1 key h t = (b2, ch)" by (cases "Submit b1 key h t")
  have all: "Submit_all b (calls @ [c]) = (b2, chs @ [ch])"
    by (simp add: c Submit_all_snoc s1 s2)
  have len: "length chs = length calls"
    using Submit_all_chans[of b calls] s1 by simp
  have ch: "ch = chansMade b1" using Submit_chan(1)[of b1 key h t] s2 by simp
  have b2: "b2 = fst (Submit b1 key h t)" using s2 by simp
  from snoc.IH s1 have d1: "distinct (map fst (pending b1))"
    and ok1: "\<And>k. entry_ok (pending b1) (zip calls chs) k" by simp_all
  have z: "zip (calls @ [c]) (chs @ [ch]) = zip calls chs @ [((key, h, t), chansMade b1)]"
    using len by (simp add: c ch)
  have "entry_ok (pending b2) (zip (calls @ [c]) (chs @ [ch])) k" for k
    unfolding z b2 by (rule entry_ok_step[OF ok1])
  moreover have "distinct (map fst (pending b2))"
    unfolding b2 by (rule Submit_distinct[OF d1])
  ultimately show ?case by (simp add: all)
qed

text \<open>
  C7. After every sequence of \<open>Submit\<close> calls that starts from an empty pending map (as
  after a flush), the keys of the map are distinct, the channels returned are fresh and in
  call order, and the entry of every key satisfies \<open>entry_ok\<close>: its waiters are the calls
  for that key in submit order, \<open>totalHits\<close> is the sum of their \<open>hitsAddend\<close>, and the
  expiration is the maximum \<open>ttlSeconds\<close> over all submits for that key. The sum is that of
  \<open>uint64\<close>: as a number, \<open>totalHits\<close> is the sum of the waiters' hits modulo \<open>2^64\<close>.
\<close>

theorem Submit_all_entries:
  assumes "pending b = []"
  shows "distinct (map fst (pending (fst (Submit_all b calls))))
       \<and> snd (Submit_all b calls) = [chansMade b ..< chansMade b + length calls]
       \<and> (\<forall>k. entry_ok (pending (fst (Submit_all b calls))) (zip calls (snd (Submit_all b calls))) k)
       \<and> (\<forall>k agg. map_of (pending (fst (Submit_all b calls))) k = Some agg \<longrightarrow>
             unat (totalHits agg)
               = sum_list (map (\<lambda>w. unat (hitsAddend w)) (waiters agg)) mod 2 ^ 64)"
proof -
  from Submit_all_invariant[OF assms, of calls]
  have inv: "distinct (map fst (pending (fst (Submit_all b calls))))"
    "\<forall>k. entry_ok (pending (fst (Submit_all b calls))) (zip calls (snd (Submit_all b calls))) k"
    by simp_all
  have chans: "snd (Submit_all b calls) = [chansMade b ..< chansMade b + length calls]"
    using Submit_all_chans[of b calls] by simp
  have nat_sum: "unat (totalHits agg)
      = sum_list (map (\<lambda>w. unat (hitsAddend w)) (waiters agg)) mod 2 ^ 64"
    if "map_of (pending (fst (Submit_all b calls))) k = Some agg" for k agg
  proof -
    from inv(2) have "entry_ok (pending (fst (Submit_all b calls)))
        (zip calls (snd (Submit_all b calls))) k" by blast
    hence "totalHits agg = sum_list (map hitsAddend (waiters agg))"
      using that by (simp add: entry_ok_def Let_def)
    thus ?thesis by (simp only: unat_sum_list_u64)
  qed
  show ?thesis using inv chans nat_sum by blast
qed

theorem Submit_all_entries_witness:
  "pending \<lparr>pending = [], chansMade = 0\<rparr> = []
   \<and> entry_ok
        (pending (fst (Submit_all \<lparr>pending = [], chansMade = 0\<rparr>
                        [(''K'', 2, 60), (''J'', 7, 1), (''K'', 3, 61), (''K'', 1, 1)])))
        (zip [(''K'', 2, 60), (''J'', 7, 1), (''K'', 3, 61), (''K'', 1, 1)]
             (snd (Submit_all \<lparr>pending = [], chansMade = 0\<rparr>
                        [(''K'', 2, 60), (''J'', 7, 1), (''K'', 3, 61), (''K'', 1, 1)])))
        ''K''
   \<and> Submit_all \<lparr>pending = [], chansMade = 0\<rparr>
         [(''K'', 2, 60), (''J'', 7, 1), (''K'', 3, 61), (''K'', 1, 1)]
     = (\<lparr>pending =
           [(''K'', \<lparr>totalHits = 6, expirationSeconds = 61,
                     waiters = [\<lparr>hitsAddend = 2, resultChan = 0\<rparr>, \<lparr>hitsAddend = 3, resultChan = 2\<rparr>,
                                \<lparr>hitsAddend = 1, resultChan = 3\<rparr>]\<rparr>),
            (''J'', \<lparr>totalHits = 7, expirationSeconds = 1,
                     waiters = [\<lparr>hitsAddend = 7, resultChan = 1\<rparr>]\<rparr>)],
         chansMade = 4\<rparr>, [0, 1, 2, 3])"
proof -
  have h: "pending \<lparr>pending = [], chansMade = 0\<rparr> = []" by simp
  have ev: "Submit_all \<lparr>pending = [], chansMade = 0\<rparr>
         [(''K'', 2, 60), (''J'', 7, 1), (''K'', 3, 61), (''K'', 1, 1)]
     = (\<lparr>pending =
           [(''K'', \<lparr>totalHits = 6, expirationSeconds = 61,
                     waiters = [\<lparr>hitsAddend = 2, resultChan = 0\<rparr>, \<lparr>hitsAddend = 3, resultChan = 2\<rparr>,
                                \<lparr>hitsAddend = 1, resultChan = 3\<rparr>]\<rparr>),
            (''J'', \<lparr>totalHits = 7, expirationSeconds = 1,
                     waiters = [\<lparr>hitsAddend = 7, resultChan = 1\<rparr>]\<rparr>)],
         chansMade = 4\<rparr>, [0, 1, 2, 3])" by code_simp
  from Submit_all_entries[OF h, of "[(''K'', 2, 60), (''J'', 7, 1), (''K'', 3, 61), (''K'', 1, 1)]"]
  have "entry_ok
        (pending (fst (Submit_all \<lparr>pending = [], chansMade = 0\<rparr>
                        [(''K'', 2, 60), (''J'', 7, 1), (''K'', 3, 61), (''K'', 1, 1)])))
        (zip [(''K'', 2, 60), (''J'', 7, 1), (''K'', 3, 61), (''K'', 1, 1)]
             (snd (Submit_all \<lparr>pending = [], chansMade = 0\<rparr>
                        [(''K'', 2, 60), (''J'', 7, 1), (''K'', 3, 61), (''K'', 1, 1)])))
        ''K''" by blast
  thus ?thesis using h ev by blast
qed

section \<open>Hot-key detector: proofs\<close>

subsection \<open>Every operation keeps the invariant\<close>


















subsection \<open>The LRU list and the hot set agree\<close>









subsection \<open>The LRU list is in order of last access\<close>


















subsection \<open>The hot set stays within its capacity\<close>



section \<open>The fixed-window engine: proofs\<close>

subsection \<open>Pipelines are grouped by slot\<close>

lemma set_update_cases: "x \<in> set (AList.update k v al) \<Longrightarrow> x = (k, v) \<or> x \<in> set al"
  by (induction al) (auto split: if_splits)

lemma pipeline_at_mem: "pipeline_at pls slot \<noteq> [] \<Longrightarrow> (slot, pipeline_at pls slot) \<in> set pls"
  by (auto simp: pipeline_at_def split: option.splits dest: map_of_SomeD)

lemma slot_pure_update:
  assumes "slot_pure g pls" "\<forall>rc \<in> set p. g (command_key (snd rc)) = slot"
  shows "slot_pure g (AList.update slot p pls)"
  unfolding slot_pure_def
proof (intro ballI)
  fix sp rc assume sp: "sp \<in> set (AList.update slot p pls)" and rc: "rc \<in> set (snd sp)"
  from set_update_cases[OF sp] show "g (command_key (snd rc)) = fst sp"
  proof
    assume "sp = (slot, p)" thus ?thesis using assms(2) rc by simp
  next
    assume "sp \<in> set pls" thus ?thesis using assms(1) rc by (simp add: slot_pure_def)
  qed
qed

lemma slot_pure_at:
  assumes "slot_pure g pls" "rc \<in> set (pipeline_at pls slot)"
  shows "g (command_key (snd rc)) = slot"
proof -
  from assms(2) have "pipeline_at pls slot \<noteq> []" by auto
  from pipeline_at_mem[OF this] assms show ?thesis by (auto simp: slot_pure_def)
qed

lemma slot_pure_get:
  assumes "slot_pure g pls" "g k = slot"
  shows "slot_pure g (AList.update slot (pipelineAppendtoGet (pipeline_at pls slot) k i) pls)"
  using assms(1)
proof (rule slot_pure_update)
  show "\<forall>rc\<in>set (pipelineAppendtoGet (pipeline_at pls slot) k i). g (command_key (snd rc)) = slot"
    using slot_pure_at[OF assms(1)] assms(2)
    by (auto simp: pipelineAppendtoGet_def PipeAppend_def)
qed

lemma slot_pure_incr:
  assumes "slot_pure g pls" "g k = slot"
  shows "slot_pure g (AList.update slot (pipelineAppend (pipeline_at pls slot) k hits i ex) pls)"
  using assms(1)
proof (rule slot_pure_update)
  show "\<forall>rc\<in>set (pipelineAppend (pipeline_at pls slot) k hits i ex). g (command_key (snd rc)) = slot"
    using slot_pure_at[OF assms(1)] assms(2)
    by (auto simp: pipelineAppend_def PipeAppend_def)
qed

lemma build_gets_pure:
  assumes "slot_pure (GetSlot (client this)) (fst st)" "slot_pure (perSecond_GetSlot this) (snd st)"
  shows "slot_pure (GetSlot (client this)) (fst (build_gets this ds st))
       \<and> slot_pure (perSecond_GetSlot this) (snd (build_gets this ds st))"
  using assms
proof (induction ds arbitrary: st)
  case Nil
  then show ?case by simp
next
  case (Cons x ds)
  obtain i d where x: "x = (i, d)" by (cases x)
  obtain a b where st: "st = (a, b)" by (cases st)
  from Cons.prems have a: "slot_pure (GetSlot (client this)) a"
    and b: "slot_pure (perSecond_GetSlot this) b" by (simp_all add: st)
  show ?case
  proof (cases "Key (cacheKey d) = []")
    case True
    then show ?thesis using Cons.IH[of "(a, b)"] a b by (simp add: x st)
  next
    case False
    show ?thesis
    proof (cases "uses_perSecond this (cacheKey d)")
      case True
      have "slot_pure (perSecond_GetSlot this)
              (AList.update (perSecond_GetSlot this (Key (cacheKey d)))
                 (pipelineAppendtoGet (pipeline_at b (perSecond_GetSlot this (Key (cacheKey d))))
                    (Key (cacheKey d)) i) b)"
        using b by (rule slot_pure_get) simp
      from Cons.IH[of "(a, AList.update (perSecond_GetSlot this (Key (cacheKey d)))
                 (pipelineAppendtoGet (pipeline_at b (perSecond_GetSlot this (Key (cacheKey d))))
                    (Key (cacheKey d)) i) b)"] a this
      show ?thesis using False True by (simp add: x st Let_def)
    next
      case notps: False
      have "slot_pure (GetSlot (client this))
              (AList.update (GetSlot (client this) (Key (cacheKey d)))
                 (pipelineAppendtoGet (pipeline_at a (GetSlot (client this) (Key (cacheKey d))))
                    (Key (cacheKey d)) i) a)"
        using a by (rule slot_pure_get) simp
      from Cons.IH[of "(AList.update (GetSlot (client this) (Key (cacheKey d)))
                 (pipelineAppendtoGet (pipeline_at a (GetSlot (client this) (Key (cacheKey d))))
                    (Key (cacheKey d)) i) a, b)"] b this
      show ?thesis using False notps by (simp add: x st Let_def)
    qed
  qed
qed

lemma rcv_in_incr:
  assumes "rcv_in S pls" "i \<in> S"
  shows "rcv_in S (AList.update slot (pipelineAppend (pipeline_at pls slot) k hits i ex) pls)"
  unfolding rcv_in_def
proof (intro ballI allI impI)
  fix sp rc r
  assume sp: "sp \<in> set (AList.update slot (pipelineAppend (pipeline_at pls slot) k hits i ex) pls)"
    and rc: "rc \<in> set (snd sp)" and r: "fst rc = Some r"
  from set_update_cases[OF sp] show "r \<in> S"
  proof
    assume eq: "sp = (slot, pipelineAppend (pipeline_at pls slot) k hits i ex)"
    hence "rc \<in> set (pipeline_at pls slot) \<or> rc = (Some i, INCRBY k hits) \<or> rc = (None, EXPIRE k ex)"
      using rc by (auto simp: pipelineAppend_def PipeAppend_def)
    thus ?thesis
    proof (elim disjE)
      assume old: "rc \<in> set (pipeline_at pls slot)"
      hence "pipeline_at pls slot \<noteq> []" by auto
      from pipeline_at_mem[OF this] old r assms(1) show ?thesis
        unfolding rcv_in_def by fastforce
    next
      assume "rc = (Some i, INCRBY k hits)" thus ?thesis using r assms(2) by simp
    next
      assume "rc = (None, EXPIRE k ex)" thus ?thesis using r by simp
    qed
  next
    assume "sp \<in> set pls" thus ?thesis using assms(1) rc r unfolding rcv_in_def by blast
  qed
qed

lemma incr_inv_hot:
  assumes "incr_inv this S st" "i \<in> S"
  shows "incr_inv this S (st\<lparr>detectorNow := det, batcherNow := bat,
            hotKeyResultChans := AList.update i ch (hotKeyResultChans st)\<rparr>)"
    and "incr_inv this S (st\<lparr>detectorNow := det, perSecondBatcherNow := bat,
            hotKeyResultChans := AList.update i ch (hotKeyResultChans st)\<rparr>)"
  using assms by (auto simp: incr_inv_def dom_update)

lemma incr_inv_cold:
  assumes "incr_inv this S st" "i \<in> S"
  shows "incr_inv this S (st\<lparr>detectorNow := det,
            pipelines := AList.update (GetSlot (client this) k)
               (pipelineAppend (pipeline_at (pipelines st) (GetSlot (client this) k)) k hits i ex)
               (pipelines st)\<rparr>)"
    and "incr_inv this S (st\<lparr>detectorNow := det,
            perSecondPipelines := AList.update (perSecond_GetSlot this k)
               (pipelineAppend (pipeline_at (perSecondPipelines st) (perSecond_GetSlot this k)) k hits i ex)
               (perSecondPipelines st)\<rparr>)"
  using assms by (simp_all add: incr_inv_def slot_pure_incr rcv_in_incr)

lemma build_increments_inv:
  assumes "build_increments w this ov nr nl ds st = Inr st'" "incr_inv this S st"
    "\<forall>x \<in> set ds. \<not> (Key (cacheKey (snd x)) = [] \<or> local_overlimit this (snd x)) \<longrightarrow> fst x \<in> S"
  shows "incr_inv this S st'"
  using assms
proof (induction ds arbitrary: st)
  case Nil
  then show ?case by simp
next
  case (Cons x ds)
  obtain i d where x: "x = (i, d)" by (cases x)
  from Cons.prems(3) have rest: "\<forall>x \<in> set ds.
      \<not> (Key (cacheKey (snd x)) = [] \<or> local_overlimit this (snd x)) \<longrightarrow> fst x \<in> S" by simp
  show ?case
  proof (cases "Key (cacheKey d) = [] \<or> local_overlimit this d")
    case True
    hence "build_increments w this ov nr nl ds st = Inr st'" using Cons.prems(1) by (simp add: x)
    from Cons.IH[OF this Cons.prems(2) rest] show ?thesis .
  next
    case False
    hence iS: "i \<in> S" using Cons.prems(3) by (simp add: x)
    note inv = Cons.prems(2)
    show ?thesis
    proof (cases "uses_perSecond this (cacheKey d)")
      case True
      from Cons.prems(1) False True obtain det hot where
        hc: "hot_check w (detectorNow st) (perSecondBatcherNow st) (Key (cacheKey d)) = Inr (det, hot)"
        by (auto simp: x Let_def split: sum.splits)
      show ?thesis
      proof (cases hot)
        case True
        with Cons.prems(1) False \<open>uses_perSecond this (cacheKey d)\<close> hc obtain b ch where
          "build_increments w this ov nr nl ds
             (st\<lparr>detectorNow := det, perSecondBatcherNow := Some b,
                 hotKeyResultChans := AList.update i ch (hotKeyResultChans st)\<rparr>) = Inr st'"
          by (auto simp: x Let_def split: prod.splits)
        from Cons.IH[OF this incr_inv_hot(2)[OF inv iS] rest] show ?thesis .
      next
        case cold: False
        with Cons.prems(1) False \<open>uses_perSecond this (cacheKey d)\<close> hc obtain hits ex where
          "build_increments w this ov nr nl ds
             (st\<lparr>detectorNow := det,
                 perSecondPipelines := AList.update (perSecond_GetSlot this (Key (cacheKey d)))
                   (pipelineAppend (pipeline_at (perSecondPipelines st)
                                      (perSecond_GetSlot this (Key (cacheKey d))))
                      (Key (cacheKey d)) hits i ex)
                   (perSecondPipelines st)\<rparr>) = Inr st'"
          by (auto simp: x Let_def)
        from Cons.IH[OF this incr_inv_cold(2)[OF inv iS] rest] show ?thesis .
      qed
    next
      case notps: False
      from Cons.prems(1) False notps obtain det hot where
        hc: "hot_check w (detectorNow st) (batcherNow st) (Key (cacheKey d)) = Inr (det, hot)"
        by (auto simp: x Let_def split: sum.splits)
      show ?thesis
      proof (cases hot)
        case True
        with Cons.prems(1) False notps hc obtain b ch where
          "build_increments w this ov nr nl ds
             (st\<lparr>detectorNow := det, batcherNow := Some b,
                 hotKeyResultChans := AList.update i ch (hotKeyResultChans st)\<rparr>) = Inr st'"
          by (auto simp: x Let_def split: prod.splits)
        from Cons.IH[OF this incr_inv_hot(1)[OF inv iS] rest] show ?thesis .
      next
        case cold: False
        with Cons.prems(1) False notps hc obtain hits ex where
          "build_increments w this ov nr nl ds
             (st\<lparr>detectorNow := det,
                 pipelines := AList.update (GetSlot (client this) (Key (cacheKey d)))
                   (pipelineAppend (pipeline_at (pipelines st) (GetSlot (client this) (Key (cacheKey d))))
                      (Key (cacheKey d)) hits i ex)
                   (pipelines st)\<rparr>) = Inr st'"
          by (auto simp: x Let_def)
        from Cons.IH[OF this incr_inv_cold(1)[OF inv iS] rest] show ?thesis .
      qed
    qed
  qed
qed

lemma log_entry_okI:
  assumes "slot_pure (slot_of_log this ps) pls" "(slot, pipeline) \<in> set pls" "pipeline \<noteq> []"
  shows "log_entry_ok this (ps, slot, map snd pipeline)"
  using assms by (auto simp: log_entry_ok_def slot_pure_def list_all_iff)

lemma slot_pure_tail: "slot_pure g (sp # pls) \<Longrightarrow> slot_pure g pls"
  by (simp add: slot_pure_def)

lemma exec_in_turn_log:
  assumes "slot_pure (slot_of_log this ps) pls" "\<forall>e \<in> set (executed ex). log_entry_ok this e"
  shows "\<forall>e \<in> set (executed (exec_in_turn ps pipeDo pls ex)). log_entry_ok this e"
  using assms
proof (induction pls arbitrary: ex)
  case Nil
  then show ?case by simp
next
  case (Cons sp pls)
  obtain slot pipeline where sp: "sp = (slot, pipeline)" by (cases sp)
  have tail: "slot_pure (slot_of_log this ps) pls" using Cons.prems(1) by (rule slot_pure_tail)
  show ?case
  proof (cases "failure ex \<noteq> None \<or> pipeline = []")
    case True
    then show ?thesis using Cons.IH[OF tail Cons.prems(2)] Cons.prems(2) by (auto simp: sp)
  next
    case False
    hence ok: "log_entry_ok this (ps, slot, map snd pipeline)"
      using Cons.prems(1) by (intro log_entry_okI[where pls = "sp # pls"]) (simp_all add: sp)
    show ?thesis
    proof (cases "pipeDo (map snd pipeline)")
      case (Inl e)
      then show ?thesis using False ok Cons.prems(2) by (auto simp: sp)
    next
      case (Inr vs)
      have "\<forall>e \<in> set (executed (ex\<lparr>executed := executed ex @ [(ps, slot, map snd pipeline)],
                memory := write_replies pipeline vs (memory ex)\<rparr>)). log_entry_ok this e"
        using ok Cons.prems(2) by auto
      from Cons.IH[OF tail this] show ?thesis using False Inr by (simp add: sp)
    qed
  qed
qed

lemma exec_all_log:
  assumes "slot_pure (slot_of_log this ps) pls" "\<forall>e \<in> set (executed ex). log_entry_ok this e"
  shows "\<forall>e \<in> set (executed (exec_all ps pipeDo pls ex)). log_entry_ok this e"
  using assms
proof (induction pls arbitrary: ex)
  case Nil
  then show ?case by simp
next
  case (Cons sp pls)
  obtain slot pipeline where sp: "sp = (slot, pipeline)" by (cases sp)
  have tail: "slot_pure (slot_of_log this ps) pls" using Cons.prems(1) by (rule slot_pure_tail)
  show ?case
  proof (cases "pipeline = []")
    case True
    then show ?thesis using Cons.IH[OF tail Cons.prems(2)] by (simp add: sp)
  next
    case False
    hence ok: "log_entry_ok this (ps, slot, map snd pipeline)"
      using Cons.prems(1) by (intro log_entry_okI[where pls = "sp # pls"]) (simp_all add: sp)
    show ?thesis
    proof (cases "pipeDo (map snd pipeline)")
      case (Inl e)
      have "\<forall>e' \<in> set (executed (ex\<lparr>executed := executed ex @ [(ps, slot, map snd pipeline)],
                failure := (if failure ex = None then Some e else failure ex)\<rparr>)).
              log_entry_ok this e'"
        using ok Cons.prems(2) by auto
      from Cons.IH[OF tail this] show ?thesis using False Inl by (simp add: sp)
    next
      case (Inr vs)
      have "\<forall>e \<in> set (executed (ex\<lparr>executed := executed ex @ [(ps, slot, map snd pipeline)],
                memory := write_replies pipeline vs (memory ex)\<rparr>)). log_entry_ok this e"
        using ok Cons.prems(2) by auto
      from Cons.IH[OF tail this] show ?thesis using False Inr by (simp add: sp)
    qed
  qed
qed

lemma slot_of_log_simps:
  "slot_of_log this False = GetSlot (client this)" "slot_of_log this True = perSecond_GetSlot this"
  by (simp_all add: slot_of_log_def fun_eq_iff)

lemma slot_pure_Nil: "slot_pure g []"
  by (simp add: slot_pure_def)

lemma preread_log:
  "\<forall>e \<in> set (executed
       (case build_gets this ds ([], []) of
          (pipelinesToGet, perSecondPipelinesToGet) \<Rightarrow>
            exec_in_turn True (perSecond_PipeDo this) perSecondPipelinesToGet
              (exec_in_turn False (PipeDo (client this)) pipelinesToGet
                 \<lparr>executed = [], failure = None, memory = (\<lambda>i. 0)\<rparr>))). log_entry_ok this e"
proof -
  obtain a b where ab: "build_gets this ds ([], []) = (a, b)" by (cases "build_gets this ds ([], [])")
  from build_gets_pure[of this "([], [])" ds] ab
  have a: "slot_pure (slot_of_log this False) a" and b: "slot_pure (slot_of_log this True) b"
    by (simp_all add: slot_pure_Nil slot_of_log_simps)
  have "\<forall>e \<in> set (executed (exec_in_turn False (PipeDo (client this)) a
                 \<lparr>executed = [], failure = None, memory = (\<lambda>i. 0)\<rparr>)). log_entry_ok this e"
    using a by (rule exec_in_turn_log) simp
  with b have "\<forall>e \<in> set (executed (exec_in_turn True (perSecond_PipeDo this) b
        (exec_in_turn False (PipeDo (client this)) a
                 \<lparr>executed = [], failure = None, memory = (\<lambda>i. 0)\<rparr>))). log_entry_ok this e"
    by (rule exec_in_turn_log)
  thus ?thesis by (simp add: ab)
qed

text \<open>
  The pipelines that \<open>DoLimit\<close> builds and hands to a driver itself, the GET pipelines of
  the pre-read and the increment pipelines of the keys that are not hot: each is non-empty
  and contains only keys \<open>k\<close> with \<open>GetSlot(k)\<close>, of the client it is sent to, equal to the
  slot under which the pipeline is grouped.
\<close>

theorem DoLimit_pipelines_single_slot:
  "\<forall>entry \<in> set (pipeDoLog (DoLimit w this descriptors)). log_entry_ok this entry"
proof -
  let ?start = "\<lparr>executed = [], failure = None, memory = (\<lambda>i. 0)\<rparr> :: execution"
  let ?ds = "enumerate 0 descriptors"
  let ?ov = "list_ex (local_overlimit this) descriptors"
  let ?pre = "(if stopCacheKeyIncrementWhenOverlimit this \<and> \<not> ?ov
             then (case build_gets this ?ds ([], []) of
                     (pipelinesToGet, perSecondPipelinesToGet) \<Rightarrow>
                       exec_in_turn True (perSecond_PipeDo this) perSecondPipelinesToGet
                         (exec_in_turn False (PipeDo (client this)) pipelinesToGet ?start))
             else ?start)"
  have pre: "\<forall>e \<in> set (executed ?pre). log_entry_ok this e"
    using preread_log[of this ?ds] by simp
  show ?thesis
  proof (cases "failure ?pre")
    case (Some e)
    then show ?thesis using pre by (simp add: DoLimit_def Let_def)
  next
    case None
    let ?cc = "memory ?pre"
    let ?done = "stopCacheKeyIncrementWhenOverlimit this \<and> \<not> ?ov"
    let ?nl = "\<lambda>i. ?done \<and> i < length descriptors \<and> nearlimit_of this ?cc (i, descriptors ! i)"
    let ?nr = "?done \<and> list_ex (nearlimit_of this ?cc) ?ds"
    let ?st0 = "\<lparr>pipelines = [], perSecondPipelines = [], hotKeyResultChans = [],
                        detectorNow = hotKeyDetector this, batcherNow = hotKeyBatcher this,
                        perSecondBatcherNow = perSecondBatcher this\<rparr>"
    show ?thesis
    proof (cases "build_increments w this ?ov ?nr ?nl ?ds ?st0")
      case (Inl e)
      then show ?thesis using None pre by (simp add: DoLimit_def Let_def)
    next
      case (Inr st)
      have "incr_inv this UNIV ?st0" by (simp add: incr_inv_def slot_pure_Nil rcv_in_def)
      from build_increments_inv[OF Inr this] have inv: "incr_inv this UNIV st" by simp
      hence a: "slot_pure (slot_of_log this False) (pipelines st)"
        and b: "slot_pure (slot_of_log this True) (perSecondPipelines st)"
        by (simp_all add: incr_inv_def slot_of_log_simps)
      have "\<forall>e \<in> set (executed (exec_all False (PipeDo (client this)) (pipelines st)
                 \<lparr>executed = executed ?pre, failure = None, memory = (\<lambda>i. 0)\<rparr>)). log_entry_ok this e"
        using a by (rule exec_all_log) (use pre in simp)
      with b have "\<forall>e \<in> set (executed (exec_all True (perSecond_PipeDo this) (perSecondPipelines st)
          (exec_all False (PipeDo (client this)) (pipelines st)
                 \<lparr>executed = executed ?pre, failure = None, memory = (\<lambda>i. 0)\<rparr>))). log_entry_ok this e"
        by (rule exec_all_log)
      thus ?thesis using None Inr by (simp add: DoLimit_def Let_def)
    qed
  qed
qed

theorem DoLimit_pipelines_single_slot_witness:
  "pipeDoLog (DoLimit sample_surroundings sample_engine sample_descriptors)
     = [(False, 1, [INCRBY ''a'' 1, EXPIRE ''a'' 60, INCRBY ''c'' 3, EXPIRE ''c'' 60]),
        (False, 2, [INCRBY ''bb'' 2, EXPIRE ''bb'' 60])]
   \<and> list_all (log_entry_ok sample_engine)
         (pipeDoLog (DoLimit sample_surroundings sample_engine sample_descriptors))
   \<and> GetSlot (client sample_engine) ''a'' = 1 \<and> GetSlot (client sample_engine) ''c'' = 1
   \<and> GetSlot (client sample_engine) ''bb'' = 2"
proof -
  have ev: "pipeDoLog (DoLimit sample_surroundings sample_engine sample_descriptors)
     = [(False, 1, [INCRBY ''a'' 1, EXPIRE ''a'' 60, INCRBY ''c'' 3, EXPIRE ''c'' 60]),
        (False, 2, [INCRBY ''bb'' 2, EXPIRE ''bb'' 60])]"
    by code_simp
  have slots: "GetSlot (client sample_engine) ''a'' = 1" "GetSlot (client sample_engine) ''c'' = 1"
    "GetSlot (client sample_engine) ''bb'' = 2"
    by (simp_all add: sample_engine_def length_slot_client_def)
  from DoLimit_pipelines_single_slot[of sample_surroundings sample_engine sample_descriptors]
  have "list_all (log_entry_ok sample_engine)
         (pipeDoLog (DoLimit sample_surroundings sample_engine sample_descriptors))"
    by (simp only: list_all_iff)
  thus ?thesis using ev slots by blast
qed

text \<open>
  C5. Not every pipeline executed for a request holds keys of one slot. The increments of
  hot keys do not enter the slot-grouped pipelines of \<open>DoLimit\<close>: they are submitted to the
  batcher, and \<open>flush\<close> appends the commands of all pending keys to one pipeline without
  asking \<open>GetSlot\<close>. For the request of two hot keys with the slots 1 and 2, \<open>DoLimit\<close>
  itself calls the driver not at all, and the flush of the batcher it leaves behind hands
  the engine's client a single pipeline whose keys have the slots 1, 1, 2, 2.
\<close>

theorem flush_pipeline_mixes_slots:
  "pipeDoLog (DoLimit sample_surroundings hot_engine hot_descriptors) = []
   \<and> map_option (\<lambda>b. pipeDoCalls (flush (PipeDo (client hot_engine)) b))
        (batcherAfter (DoLimit sample_surroundings hot_engine hot_descriptors))
      = Some [[INCRBY ''a'' 1, EXPIRE ''a'' 60, INCRBY ''bb'' 2, EXPIRE ''bb'' 60]]
   \<and> map (\<lambda>c. GetSlot (client hot_engine) (command_key c))
        [INCRBY ''a'' 1, EXPIRE ''a'' 60, INCRBY ''bb'' 2, EXPIRE ''bb'' 60]
      = [1, 1, 2, 2]"
  by code_simp

subsection \<open>Descriptors that the increment phase skips\<close>

lemma write_replies_untouched:
  "\<forall>rc \<in> set p. fst rc \<noteq> Some i \<Longrightarrow> write_replies p vs mem i = mem i"
proof (induction p arbitrary: vs mem)
  case Nil
  then show ?case by simp
next
  case (Cons rc p)
  obtain rcv c where rc: "rc = (rcv, c)" by (cases rc)
  from Cons.prems have here: "rcv \<noteq> Some i" and rest: "\<forall>rc \<in> set p. fst rc \<noteq> Some i"
    by (simp_all add: rc)
  show ?case
  proof (cases vs)
    case Nil
    then show ?thesis by (simp add: rc)
  next
    case (Cons v vs')
    show ?thesis
    proof (cases rcv)
      case None
      then show ?thesis using Cons.IH[OF rest, of vs' mem] by (simp add: rc Cons)
    next
      case (Some a)
      hence ne: "a \<noteq> i" using here by simp
      have "write_replies (rc # p) vs mem i = write_replies p vs' (mem(a := v)) i"
        by (simp add: rc Cons Some)
      also have "\<dots> = (mem(a := v)) i" by (rule Cons.IH[OF rest])
      also have "\<dots> = mem i" using ne by simp
      finally show ?thesis .
    qed
  qed
qed

lemma rcv_in_tail: "rcv_in S (sp # pls) \<Longrightarrow> rcv_in S pls"
  by (simp add: rcv_in_def)

lemma rcv_in_head: "rcv_in S ((slot, pipeline) # pls) \<Longrightarrow> i \<notin> S \<Longrightarrow> \<forall>rc \<in> set pipeline. fst rc \<noteq> Some i"
  by (auto simp: rcv_in_def)

lemma exec_all_memory:
  assumes "rcv_in S pls" "i \<notin> S"
  shows "memory (exec_all ps pipeDo pls ex) i = memory ex i"
  using assms(1)
proof (induction pls arbitrary: ex)
  case Nil
  then show ?case by simp
next
  case (Cons sp pls)
  obtain slot pipeline where sp: "sp = (slot, pipeline)" by (cases sp)
  have tail: "rcv_in S pls" using Cons.prems by (rule rcv_in_tail)
  have un: "\<forall>rc \<in> set pipeline. fst rc \<noteq> Some i"
    using Cons.prems assms(2) unfolding sp by (rule rcv_in_head)
  show ?case
    using Cons.IH[OF tail] write_replies_untouched[OF un]
    by (cases "pipeDo (map snd pipeline)") (simp_all add: sp)
qed

lemma await_hot_untouched:
  assumes "await_hot rcv chans results = Inr results'" "i \<notin> fst ` set chans"
  shows "results' i = results i"
  using assms
proof (induction chans arbitrary: results)
  case Nil
  then show ?case by simp
next
  case (Cons x chans)
  obtain j ch where x: "x = (j, ch)" by (cases x)
  from Cons.prems(1) have none: "Err (rcv ch) = None"
    and rest: "await_hot rcv chans (results(j := Value (rcv ch))) = Inr results'"
    by (auto simp: x split: option.splits)
  from Cons.prems(2) have "i \<noteq> j" "i \<notin> fst ` set chans" by (auto simp: x)
  with Cons.IH[OF rest] show ?case by simp
qed

lemma statuses_of_nth:
  assumes "i < length descriptors"
  shows "statuses_of this results (enumerate 0 descriptors) ! i
     = GetResponseDescriptorStatus (baseRateLimiter this) (Key (cacheKey (descriptors ! i)))
         (limitAt (descriptors ! i)) (results i - hitsAddendAt (descriptors ! i)) (results i)
         (local_overlimit this (descriptors ! i)) (hitsAddendAt (descriptors ! i))"
  using assms by (simp add: statuses_of_def nth_enumerate_eq Let_def)

lemma unat_zero_minus: "h \<noteq> 0 \<Longrightarrow> unat (0 - h :: u64) = 2 ^ 64 - unat h"
proof -
  assume "h \<noteq> 0"
  hence "unat h \<noteq> 0" by (simp add: unat_eq_zero)
  moreover have "unat (0 - h)
      = (if unat h \<le> unat (0::u64) then unat (0::u64) - unat h
         else unat (0::u64) + 2 ^ LENGTH(64) - unat h)"
    by (rule unat_sub_if')
  ultimately show ?thesis by simp
qed

text \<open>
  C10. Whenever \<open>DoLimit\<close> returns statuses, for every descriptor \<open>i\<close> that the increment
  phase skips (its key is empty, or the local over-limit cache flagged it), \<open>results[i]\<close>
  is still 0 in the verdict phase: the status is computed from \<open>limitAfterIncrease = 0\<close>
  and \<open>limitBeforeIncrease = 0 - hitsAddends[i]\<close>, and when \<open>hitsAddends[i] > 0\<close> that
  difference wraps to \<open>2^64 - hitsAddends[i]\<close>, a value near \<open>2^64\<close> rather than 0.
\<close>

theorem DoLimit_skipped_wraps:
  assumes v: "verdicts (DoLimit w this descriptors) = Inr statuses"
    and i: "i < length descriptors"
    and skip: "Key (cacheKey (descriptors ! i)) = [] \<or> local_overlimit this (descriptors ! i)"
  shows "length statuses = length descriptors
       \<and> statuses ! i
           = GetResponseDescriptorStatus (baseRateLimiter this) (Key (cacheKey (descriptors ! i)))
               (limitAt (descriptors ! i)) (0 - hitsAddendAt (descriptors ! i)) 0
               (local_overlimit this (descriptors ! i)) (hitsAddendAt (descriptors ! i))
       \<and> (hitsAddendAt (descriptors ! i) \<noteq> 0 \<longrightarrow>
            unat (0 - hitsAddendAt (descriptors ! i))
              = 2 ^ 64 - unat (hitsAddendAt (descriptors ! i)))"
proof -
  let ?start = "\<lparr>executed = [], failure = None, memory = (\<lambda>i. 0)\<rparr> :: execution"
  let ?ds = "enumerate 0 descriptors"
  let ?ov = "list_ex (local_overlimit this) descriptors"
  let ?pre = "(if stopCacheKeyIncrementWhenOverlimit this \<and> \<not> ?ov
             then (case build_gets this ?ds ([], []) of
                     (pipelinesToGet, perSecondPipelinesToGet) \<Rightarrow>
                       exec_in_turn True (perSecond_PipeDo this) perSecondPipelinesToGet
                         (exec_in_turn False (PipeDo (client this)) pipelinesToGet ?start))
             else ?start)"
  let ?cc = "memory ?pre"
  let ?done = "stopCacheKeyIncrementWhenOverlimit this \<and> \<not> ?ov"
  let ?nl = "\<lambda>i. ?done \<and> i < length descriptors \<and> nearlimit_of this ?cc (i, descriptors ! i)"
  let ?nr = "?done \<and> list_ex (nearlimit_of this ?cc) ?ds"
  let ?st0 = "\<lparr>pipelines = [], perSecondPipelines = [], hotKeyResultChans = [],
                        detectorNow = hotKeyDetector this, batcherNow = hotKeyBatcher this,
                        perSecondBatcherNow = perSecondBatcher this\<rparr>"
  let ?S = "{j. j < length descriptors
              \<and> \<not> (Key (cacheKey (descriptors ! j)) = [] \<or> local_overlimit this (descriptors ! j))}"
  from v have none: "failure ?pre = None"
    by (auto simp: DoLimit_def Let_def split: option.splits)
  from v none obtain st where st: "build_increments w this ?ov ?nr ?nl ?ds ?st0 = Inr st"
    by (cases "build_increments w this ?ov ?nr ?nl ?ds ?st0") (auto simp: DoLimit_def Let_def)
  let ?run = "exec_all True (perSecond_PipeDo this) (perSecondPipelines st)
                (exec_all False (PipeDo (client this)) (pipelines st)
                   \<lparr>executed = executed ?pre, failure = None, memory = (\<lambda>i. 0)\<rparr>)"
  from v none st obtain results where
    res: "await_hot (received w) (hotKeyResultChans st) (memory ?run) = Inr results"
    and stat: "statuses = statuses_of this results ?ds"
    by (auto simp: DoLimit_def Let_def split: option.splits sum.splits)
  have inv0: "incr_inv this ?S ?st0" by (simp add: incr_inv_def slot_pure_Nil rcv_in_def)
  have cover: "\<forall>x \<in> set ?ds.
      \<not> (Key (cacheKey (snd x)) = [] \<or> local_overlimit this (snd x)) \<longrightarrow> fst x \<in> ?S"
    by (auto simp: in_set_enumerate_eq)
  from build_increments_inv[OF st inv0 cover] have inv: "incr_inv this ?S st" .
  have notin: "i \<notin> ?S" using skip by simp
  from inv have r1: "rcv_in ?S (pipelines st)" and r2: "rcv_in ?S (perSecondPipelines st)"
    and ch: "fst ` set (hotKeyResultChans st) \<subseteq> ?S" by (simp_all add: incr_inv_def)
  have "memory ?run i = 0"
    by (simp add: exec_all_memory[OF r2 notin] exec_all_memory[OF r1 notin])
  moreover have "i \<notin> fst ` set (hotKeyResultChans st)" using ch notin by blast
  ultimately have zero: "results i = 0" using await_hot_untouched[OF res] by simp
  have len: "length statuses = length descriptors" by (simp add: stat statuses_of_def)
  have nth: "statuses ! i
           = GetResponseDescriptorStatus (baseRateLimiter this) (Key (cacheKey (descriptors ! i)))
               (limitAt (descriptors ! i)) (0 - hitsAddendAt (descriptors ! i)) 0
               (local_overlimit this (descriptors ! i)) (hitsAddendAt (descriptors ! i))"
    using statuses_of_nth[OF i, of this results] zero by (simp add: stat)
  show ?thesis using len nth unat_zero_minus by blast
qed

theorem DoLimit_skipped_wraps_witness:
  "verdicts (DoLimit sample_surroundings sample_engine sample_descriptors)
     = Inr [(0, 1), (18446744073709551615, 0), (0, 2), (0, 3), (18446744073709551611, 0)]
   \<and> (1::nat) < length sample_descriptors
   \<and> Key (cacheKey (sample_descriptors ! 1)) = []
   \<and> hitsAddendAt (sample_descriptors ! 1) = 1
   \<and> [(0, 1), (18446744073709551615, 0), (0, 2), (0, 3), (18446744073709551611 :: u64, 0 :: u64)] ! 1
       = (0 - 1, 0)
   \<and> unat (0 - 1 :: u64) = 2 ^ 64 - unat (1 :: u64)"
proof -
  have ev: "verdicts (DoLimit sample_surroundings sample_engine sample_descriptors)
     = Inr [(0, 1), (18446744073709551615, 0), (0, 2), (0, 3), (18446744073709551611, 0)]"
    by code_simp
  have h1: "(1::nat) < length sample_descriptors" by (simp add: sample_descriptors_def)
  have k: "Key (cacheKey (sample_descriptors ! 1)) = []" by (simp add: sample_descriptors_def)
  have hits: "hitsAddendAt (sample_descriptors ! 1) = 1" by (simp add: sample_descriptors_def)
  have h2: "Key (cacheKey (sample_descriptors ! 1)) = []
      \<or> local_overlimit sample_engine (sample_descriptors ! 1)" using k by simp
  from DoLimit_skipped_wraps[OF ev h1 h2, unfolded hits]
  have "[(0, 1), (18446744073709551615, 0), (0, 2), (0, 3), (18446744073709551611 :: u64, 0 :: u64)] ! 1
       = (0 - 1, 0)
     \<and> unat (0 - 1 :: u64) = 2 ^ 64 - unat (1 :: u64)"
    by (simp add: sample_engine_def sample_limiter_def)
  thus ?thesis using ev h1 k hits by blast
qed

end
